theory Spec2Isabelle
  imports Main "HOL-Library.Word"
begin

unbundle bit_operations_syntax

section \<open>Machine model\<close>

text \<open>
  The allocator of \<^verbatim>\<open>src/alloc.c\<close> works on raw memory.  Memory is a total map from
  64-bit addresses to bytes; \<^verbatim>\<open>size_t\<close> and pointers are 64-bit words whose arithmetic
  wraps, \<^verbatim>\<open>int\<close> is a 32-bit word (the LP64 data model, little-endian), so that
  \<^verbatim>\<open>sizeof(metadata_t) = 32\<close> and \<^verbatim>\<open>sizeof(footer_t) = 8\<close>; the fields of
  \<^verbatim>\<open>metadata_t\<close> lie at the offsets 0 (size), 8 (free), 12 (padding), 16 (next) and
  24 (prev).
\<close>

type_synonym addr = "64 word"
type_synonym size_t = "64 word"
type_synonym byte = "8 word"
type_synonym memory = "addr \<Rightarrow> byte"

fun store_bytes :: "memory \<Rightarrow> addr \<Rightarrow> byte list \<Rightarrow> memory" where
  "store_bytes m a [] = m"
| "store_bytes m a (b # bs) = store_bytes (m(a := b)) (a + 1) bs"

primrec load_bytes :: "memory \<Rightarrow> addr \<Rightarrow> nat \<Rightarrow> byte list" where
  "load_bytes m a 0 = []"
| "load_bytes m a (Suc n) = m a # load_bytes m (a + 1) n"

definition bytes_of :: "nat \<Rightarrow> 'a::len word \<Rightarrow> byte list" where
  "bytes_of n v = map (\<lambda>i. ucast (drop_bit (8 * i) v)) [0..<n]"

definition word_of_bytes :: "byte list \<Rightarrow> 'a::len word" where
  "word_of_bytes bs = word_of_int (horner_sum uint (2 ^ 8) bs)"

definition load64 :: "memory \<Rightarrow> addr \<Rightarrow> 64 word" where
  "load64 m a = word_of_bytes (load_bytes m a 8)"

definition store64 :: "memory \<Rightarrow> addr \<Rightarrow> 64 word \<Rightarrow> memory" where
  "store64 m a v = store_bytes m a (bytes_of 8 v)"

definition load32 :: "memory \<Rightarrow> addr \<Rightarrow> 32 word" where
  "load32 m a = word_of_bytes (load_bytes m a 4)"

definition store32 :: "memory \<Rightarrow> addr \<Rightarrow> 32 word \<Rightarrow> memory" where
  "store32 m a v = store_bytes m a (bytes_of 4 v)"

text \<open>\<^verbatim>\<open>memset\<close> and \<^verbatim>\<open>memcpy\<close> of the C library, on this memory.\<close>

definition memset :: "memory \<Rightarrow> addr \<Rightarrow> byte \<Rightarrow> size_t \<Rightarrow> memory" where
  "memset m p c n = store_bytes m p (replicate (unat n) c)"

definition memcpy :: "memory \<Rightarrow> addr \<Rightarrow> addr \<Rightarrow> size_t \<Rightarrow> memory" where
  "memcpy m dst src n = store_bytes m dst (load_bytes m src (unat n))"

subsection \<open>The fields of a block\<close>

abbreviation sizeof_metadata :: size_t where "sizeof_metadata \<equiv> 32"
abbreviation sizeof_footer :: size_t where "sizeof_footer \<equiv> 8"

definition get_size :: "memory \<Rightarrow> addr \<Rightarrow> size_t" where
  "get_size m b = load64 m b"

definition set_size :: "memory \<Rightarrow> addr \<Rightarrow> size_t \<Rightarrow> memory" where
  "set_size m b v = store64 m b v"

definition get_free :: "memory \<Rightarrow> addr \<Rightarrow> 32 word" where
  "get_free m b = load32 m (b + 8)"

definition set_free :: "memory \<Rightarrow> addr \<Rightarrow> 32 word \<Rightarrow> memory" where
  "set_free m b v = store32 m (b + 8) v"

definition get_next :: "memory \<Rightarrow> addr \<Rightarrow> addr" where
  "get_next m b = load64 m (b + 16)"

definition set_next :: "memory \<Rightarrow> addr \<Rightarrow> addr \<Rightarrow> memory" where
  "set_next m b v = store64 m (b + 16) v"

definition get_prev :: "memory \<Rightarrow> addr \<Rightarrow> addr" where
  "get_prev m b = load64 m (b + 24)"

definition set_prev :: "memory \<Rightarrow> addr \<Rightarrow> addr \<Rightarrow> memory" where
  "set_prev m b v = store64 m (b + 24) v"

text \<open>The footer of a block lies behind its payload; it holds one \<^verbatim>\<open>size_t\<close>.\<close>

definition footer_of :: "memory \<Rightarrow> addr \<Rightarrow> addr" where
  "footer_of m b = b + sizeof_metadata + get_size m b"

definition get_footer_size :: "memory \<Rightarrow> addr \<Rightarrow> size_t" where
  "get_footer_size m b = load64 m (footer_of m b)"

subsection \<open>Allocator state and outcomes\<close>

text \<open>
  The three globals of the source, the memory, and the program break of the process
  with the highest break the system grants.
\<close>

record state =
  mem :: memory
  free_list_head :: addr
  heap_top :: addr
  heap_start :: addr
  brk :: addr
  brk_limit :: addr

text \<open>
  A call either returns (\<open>Ret\<close>, with the state it leaves and its result) or ends the
  process with \<^verbatim>\<open>abort()\<close> after a line on the standard error stream (\<open>Abort\<close>, with
  that line and the state reached).  A call that never returns is \<open>None\<close>.
\<close>

datatype 'a outcome = Abort string state | Ret state 'a

definition bind_outcome ::
  "'a outcome option \<Rightarrow> (state \<Rightarrow> 'a \<Rightarrow> 'b outcome option) \<Rightarrow> 'b outcome option" where
  "bind_outcome r f =
     (case r of
        None \<Rightarrow> None
      | Some (Abort msg s) \<Rightarrow> Some (Abort msg s)
      | Some (Ret s x) \<Rightarrow> f s x)"

text \<open>
  Modelled from the spec: the heap-extension primitive (\<^verbatim>\<open>sbrk\<close> of the system), which
  is not part of the repository.  \<open>extend(n)\<close> requests \<open>n\<close> more bytes at the end of the
  region and returns the previous end, or the failure sentinel \<open>-1\<close> when the region
  cannot grow; the zero-byte query returns the present end without growing.
\<close>

definition sbrk :: "state \<Rightarrow> 64 word \<Rightarrow> state \<times> addr" where
  "sbrk s incr =
     (if incr = 0 then (s, brk s)
      else if unat (brk s) + unat incr \<le> unat (brk_limit s)
      then (s\<lparr>brk := brk s + incr\<rparr>, brk s)
      else (s, - 1))"

section \<open>The functions of alloc.c\<close>

definition aligned_size :: "size_t \<Rightarrow> size_t" where
  "aligned_size sz = (if sz mod 8 = 0 then sz else sz + (8 - sz mod 8))"

definition set_footer :: "memory \<Rightarrow> addr \<Rightarrow> memory" where
  "set_footer m block = store64 m (block + sizeof_metadata + get_size m block) (get_size m block)"

partial_function (option) find_free_loop :: "memory \<Rightarrow> addr \<Rightarrow> size_t \<Rightarrow> addr option" where
  "find_free_loop m cur sz =
     (if cur = 0 then Some 0
      else if sz \<le> get_size m cur then Some cur
      else find_free_loop m (get_next m cur) sz)"

declare find_free_loop.simps [code]

definition find_free_block :: "state \<Rightarrow> size_t \<Rightarrow> addr option" where
  "find_free_block s sz =
     (if free_list_head s = 0 then Some 0
      else find_free_loop (mem s) (free_list_head s) sz)"

definition add_to_free_list :: "state \<Rightarrow> addr \<Rightarrow> state" where
  "add_to_free_list s block =
     (let m1 = set_free (mem s) block 1 in
      if free_list_head s = 0
      then s\<lparr>mem := set_prev (set_next m1 block 0) block 0, free_list_head := block\<rparr>
      else s\<lparr>mem := set_prev (set_next (set_prev m1 block 0) block (free_list_head s))
                         (free_list_head s) block,
             free_list_head := block\<rparr>)"

text \<open>The body of the removal loop once \<^verbatim>\<open>curr == block\<close>.\<close>

definition unlink_block :: "state \<Rightarrow> addr \<Rightarrow> unit outcome" where
  "unlink_block s cur =
     (let s1 = s\<lparr>mem := set_free (mem s) cur 0\<rparr>;
          s2 = (if cur = free_list_head s1
                then s1\<lparr>free_list_head := get_next (mem s1) cur\<rparr> else s1);
          m2 = mem s2
      in if get_next m2 cur \<noteq> 0 \<and> get_prev m2 (get_next m2 cur) \<noteq> cur
         then Abort ''Corrupted heap detected: Next block's prev pointer does not point back to current block.'' s2
         else if get_prev m2 cur \<noteq> 0 \<and> get_next m2 (get_prev m2 cur) \<noteq> cur
         then Abort ''Corrupted heap detected: Prev block's next pointer does not point back to current block.'' s2
         else
           let m3 = (if get_next m2 cur \<noteq> 0
                     then set_prev m2 (get_next m2 cur) (get_prev m2 cur) else m2);
               m4 = (if get_prev m3 cur \<noteq> 0
                     then set_next m3 (get_prev m3 cur) (get_next m3 cur) else m3);
               m5 = set_next m4 cur 0;
               m6 = set_prev m5 cur 0
           in Ret (s2\<lparr>mem := m6\<rparr>) ())"

partial_function (option) remove_loop :: "state \<Rightarrow> addr \<Rightarrow> addr \<Rightarrow> unit outcome option" where
  "remove_loop s cur block =
     (if cur = 0 then Some (Ret s ())
      else if cur = block then Some (unlink_block s cur)
      else remove_loop s (get_next (mem s) cur) block)"

declare remove_loop.simps [code]

definition remove_from_free_list :: "state \<Rightarrow> addr \<Rightarrow> unit outcome option" where
  "remove_from_free_list s block = remove_loop s (free_list_head s) block"

definition coalesce_next :: "state \<Rightarrow> addr \<Rightarrow> unit outcome option" where
  "coalesce_next s block =
     (let next_block = block + sizeof_metadata + get_size (mem s) block + sizeof_footer in
      if next_block = heap_top s then Some (Ret s ())
      else if get_free (mem s) next_block \<noteq> 0 then
        bind_outcome (remove_from_free_list s block) (\<lambda>s1 _.
        bind_outcome (remove_from_free_list s1 next_block) (\<lambda>s2 _.
          let m1 = set_size (mem s2) block
                     (get_size (mem s2) block + sizeof_footer + sizeof_metadata
                        + get_size (mem s2) next_block);
              m2 = set_footer m1 block
          in Some (Ret (add_to_free_list (s2\<lparr>mem := m2\<rparr>) block) ())))
      else Some (Ret s ()))"

definition coalesce_prev :: "state \<Rightarrow> addr \<Rightarrow> unit outcome option" where
  "coalesce_prev s block =
     (if block = heap_start s then Some (Ret s ())
      else
        let prev_footer = block - sizeof_footer;
            prev_size = load64 (mem s) prev_footer;
            prev_block = block - sizeof_footer - prev_size - sizeof_metadata
        in if get_free (mem s) prev_block \<noteq> 0 then
             bind_outcome (remove_from_free_list s block) (\<lambda>s1 _.
             bind_outcome (remove_from_free_list s1 prev_block) (\<lambda>s2 _.
               let m1 = set_size (mem s2) prev_block
                          (get_size (mem s2) prev_block + sizeof_footer + sizeof_metadata
                             + get_size (mem s2) block);
                   m2 = set_footer m1 prev_block
               in Some (Ret (add_to_free_list (s2\<lparr>mem := m2\<rparr>) prev_block) ())))
           else Some (Ret s ()))"

definition coalesce :: "state \<Rightarrow> addr \<Rightarrow> unit outcome option" where
  "coalesce s block =
     bind_outcome (coalesce_next s block) (\<lambda>s1 _. coalesce_prev s1 block)"

definition split_block :: "state \<Rightarrow> addr \<Rightarrow> size_t \<Rightarrow> unit outcome option" where
  "split_block s block sz =
     (let leftover = get_size (mem s) block - sz in
      if leftover < sizeof_metadata + sizeof_footer + 8 then
        bind_outcome (remove_from_free_list s block) (\<lambda>s1 _.
          Some (Ret (s1\<lparr>mem := set_free (mem s1) block 0\<rparr>) ()))
      else
        bind_outcome (remove_from_free_list s block) (\<lambda>s1 _.
          let m1 = set_size (mem s1) block sz;
              m2 = set_free m1 block 0;
              m3 = set_footer m2 block;
              new_block = block + sizeof_metadata + get_size m3 block + sizeof_footer;
              m4 = set_size m3 new_block (leftover - sizeof_metadata - sizeof_footer);
              m5 = set_free m4 new_block 1;
              m6 = set_next m5 new_block 0;
              m7 = set_prev m6 new_block 0;
              m8 = set_footer m7 new_block;
              s2 = add_to_free_list (s1\<lparr>mem := m8\<rparr>) new_block
          in coalesce_next s2 new_block))"

definition malloc :: "state \<Rightarrow> size_t \<Rightarrow> addr outcome option" where
  "malloc s sz =
     (if sz = 0 then Some (Ret s 0)
      else
        let s1 = (if heap_top s = 0
                  then (case sbrk s 0 of (s', p) \<Rightarrow> s'\<lparr>heap_start := p, heap_top := p\<rparr>)
                  else s)
        in if heap_top s1 = - 1 then Some (Ret s1 0)
           else
             let full_size = aligned_size sz in
             case find_free_block s1 full_size of
               None \<Rightarrow> None
             | Some new_block \<Rightarrow>
                 if new_block \<noteq> 0 then
                   bind_outcome (split_block s1 new_block full_size) (\<lambda>s2 _.
                     Some (Ret s2 (new_block + sizeof_metadata)))
                 else
                   (case sbrk s1 (full_size + sizeof_metadata + sizeof_footer) of
                      (s2, new_block) \<Rightarrow>
                        if new_block = - 1 then Some (Ret s2 0)
                        else
                          (case sbrk s2 0 of
                             (s3, new_top) \<Rightarrow>
                               let m1 = set_size (mem s3) new_block full_size;
                                   m2 = set_free m1 new_block 0;
                                   m3 = set_next m2 new_block 0;
                                   m4 = set_prev m3 new_block 0;
                                   m5 = set_footer m4 new_block
                               in Some (Ret (s3\<lparr>heap_top := new_top, mem := m5\<rparr>)
                                          (new_block + sizeof_metadata)))))"

definition calloc :: "state \<Rightarrow> size_t \<Rightarrow> size_t \<Rightarrow> addr outcome option" where
  "calloc s num sz =
     (if num = 0 \<or> sz = 0 then Some (Ret s 0)
      else
        let total_size = num * sz in
        if total_size div num \<noteq> sz then Some (Ret s 0)
        else
          bind_outcome (malloc s total_size) (\<lambda>s1 ptr.
            if ptr = 0 then Some (Ret s1 0)
            else Some (Ret (s1\<lparr>mem := memset (mem s1) ptr 0 total_size\<rparr>) ptr)))"

definition free :: "state \<Rightarrow> addr \<Rightarrow> unit outcome option" where
  "free s ptr =
     (if ptr = 0 then Some (Ret s ())
      else
        let block = ptr - sizeof_metadata in
        coalesce (add_to_free_list s block) block)"

definition realloc :: "state \<Rightarrow> addr \<Rightarrow> size_t \<Rightarrow> addr outcome option" where
  "realloc s ptr sz =
     (if ptr = 0 then malloc s sz
      else if sz = 0 then bind_outcome (free s ptr) (\<lambda>s1 _. Some (Ret s1 0))
      else
        let block = ptr - sizeof_metadata;
            old_size = get_size (mem s) block;
            new_size = aligned_size sz
        in if new_size \<le> old_size then Some (Ret s ptr)
           else
             let nxt = block + sizeof_metadata + old_size + sizeof_footer;
                 combined = old_size + sizeof_metadata + get_size (mem s) nxt + sizeof_footer
             in if nxt < heap_top s \<and> get_free (mem s) nxt \<noteq> 0 \<and> new_size \<le> combined
                then
                  bind_outcome (remove_from_free_list s nxt) (\<lambda>s1 _.
                    let m1 = set_size (mem s1) block combined;
                        m2 = set_footer m1 block
                    in Some (Ret (s1\<lparr>mem := m2\<rparr>) ptr))
                else
                  bind_outcome (malloc s sz) (\<lambda>s1 new_ptr.
                    if new_ptr = 0 then Some (Ret s1 0)
                    else
                      bind_outcome (free (s1\<lparr>mem := memcpy (mem s1) new_ptr ptr old_size\<rparr>) ptr)
                        (\<lambda>s2 _. Some (Ret s2 new_ptr))))"

section \<open>Layout of the heap\<close>

text \<open>Two byte ranges, given by their first address and length, that do not wrap around
  the address space and do not meet.\<close>
definition apart :: "addr \<Rightarrow> nat \<Rightarrow> addr \<Rightarrow> nat \<Rightarrow> bool" where
  "apart a n b k \<longleftrightarrow>
     unat a + n \<le> 2 ^ 64 \<and> unat b + k \<le> 2 ^ 64 \<and> (unat a + n \<le> unat b \<or> unat b + k \<le> unat a)"

definition hsep :: "addr \<Rightarrow> addr \<Rightarrow> bool" where
  "hsep b c \<longleftrightarrow> unat b + 32 \<le> 2 ^ 64 \<and> unat c + 32 \<le> 2 ^ 64 \<and>
     (b = c \<or> unat b + 32 \<le> unat c \<or> unat c + 32 \<le> unat b)"

definition fsep :: "addr \<Rightarrow> addr \<Rightarrow> bool" where
  "fsep f c \<longleftrightarrow> unat f + 8 \<le> 2 ^ 64 \<and> unat c + 32 \<le> 2 ^ 64 \<and>
     (unat f + 8 \<le> unat c \<or> unat c + 32 \<le> unat f)"

text \<open>
  The blocks of the heap region, in address order: \<open>tiles m a bs t\<close> says that the
  blocks \<open>bs\<close>, each taking its header, its payload of \<open>size\<close> bytes and its footer,
  lie end to end from address \<open>a\<close> to address \<open>t\<close>.  The sizes are read from the
  headers in \<open>m\<close>; \<open>tiles_by\<close> takes them from a function.
\<close>

fun tiles_by :: "(addr \<Rightarrow> size_t) \<Rightarrow> nat \<Rightarrow> addr list \<Rightarrow> nat \<Rightarrow> bool" where
  "tiles_by g a [] t \<longleftrightarrow> a = t"
| "tiles_by g a (b # bs) t \<longleftrightarrow> unat b = a \<and> tiles_by g (a + 40 + unat (g b)) bs t"

abbreviation tiles :: "memory \<Rightarrow> nat \<Rightarrow> addr list \<Rightarrow> nat \<Rightarrow> bool" where
  "tiles m \<equiv> tiles_by (get_size m)"

text \<open>
  The free list as the code walks it: \<open>chain m h xs e\<close> follows the \<^verbatim>\<open>next\<close> links from
  \<open>h\<close> through the non-null blocks \<open>xs\<close> and arrives at \<open>e\<close>; \<open>dll m p xs h\<close> is a
  null-terminated chain whose \<^verbatim>\<open>prev\<close> links point back, the first one to \<open>p\<close>.
\<close>

fun chain :: "memory \<Rightarrow> addr \<Rightarrow> addr list \<Rightarrow> addr \<Rightarrow> bool" where
  "chain m h [] e \<longleftrightarrow> h = e"
| "chain m h (x # xs) e \<longleftrightarrow> h = x \<and> x \<noteq> 0 \<and> chain m (get_next m x) xs e"

fun dll :: "memory \<Rightarrow> addr \<Rightarrow> addr list \<Rightarrow> addr \<Rightarrow> bool" where
  "dll m p [] h \<longleftrightarrow> h = 0"
| "dll m p (x # xs) h \<longleftrightarrow> h = x \<and> x \<noteq> 0 \<and> get_prev m x = p \<and> dll m x xs (get_next m x)"

text \<open>What a tiling gives for loads and stores: the headers and footers of its blocks
  are pairwise apart.\<close>
definition laid_by :: "(addr \<Rightarrow> size_t) \<Rightarrow> addr set \<Rightarrow> bool" where
  "laid_by g B \<longleftrightarrow>
     (\<forall>b\<in>B. \<forall>c\<in>B. hsep b c \<and> fsep (b + 32 + g b) c \<and>
        (b = c \<or> apart (b + 32 + g b) 8 (c + 32 + g c) 8))"

abbreviation laid :: "memory \<Rightarrow> addr set \<Rightarrow> bool" where
  "laid m \<equiv> laid_by (get_size m)"

text \<open>The check of \<^verbatim>\<open>remove_from_free_list\<close> on the neighbours of a block.\<close>

definition links_corrupt :: "memory \<Rightarrow> addr \<Rightarrow> bool" where
  "links_corrupt m b \<longleftrightarrow>
     (get_next m b \<noteq> 0 \<and> get_prev m (get_next m b) \<noteq> b) \<or>
     (get_prev m b \<noteq> 0 \<and> get_next m (get_prev m b) \<noteq> b)"

text \<open>
  The invariant of the allocator: the heap region is tiled by the blocks \<open>bs\<close>, every
  footer repeats its header's size, and the free list \<open>fl\<close> is a well-formed doubly
  linked list of exactly the blocks whose flag is set.  Before the first allocation
  \<^verbatim>\<open>heap_top\<close> is null and there are no blocks; afterwards it is the program break.
  Of the system it says (\<open>break_ok\<close>) that the break is not null, lies within its limit,
  and that the limit leaves the last 32 bytes of the address space out.
\<close>

definition break_ok :: "state \<Rightarrow> bool" where
  "break_ok s \<longleftrightarrow>
     brk s \<noteq> 0 \<and> unat (brk s) \<le> unat (brk_limit s) \<and> unat (brk_limit s) + 32 < 2 ^ 64"

definition heap_inv :: "state \<Rightarrow> addr list \<Rightarrow> addr list \<Rightarrow> bool" where
  "heap_inv s bs fl \<longleftrightarrow>
     break_ok s \<and> (heap_top s = 0 \<or> heap_top s = brk s \<and> heap_start s \<noteq> 0) \<and>
     tiles (mem s) (unat (heap_start s)) bs (unat (heap_top s)) \<and>
     (\<forall>b\<in>set bs. get_footer_size (mem s) b = get_size (mem s) b) \<and>
     dll (mem s) 0 fl (free_list_head s) \<and> distinct fl \<and> set fl \<subseteq> set bs \<and>
     (\<forall>b\<in>set bs. get_free (mem s) b \<noteq> 0 \<longleftrightarrow> b \<in> set fl)"

subsection \<open>The blocks as the spec sees them\<close>

text \<open>
  The spec speaks of blocks with a payload size and a free flag.  \<open>ablocks\<close> reads
  these off the memory for the blocks of a tiling.  The three functions after it follow
  the spec's words for a release: the block is marked free; then, if the block behind it
  is free, the block absorbs that block with its header and footer (40 bytes); then, if
  the block before it is free, that block absorbs the (possibly enlarged) block.
\<close>

type_synonym ablock = "addr \<times> nat \<times> bool"

definition ablocks :: "memory \<Rightarrow> addr list \<Rightarrow> ablock list" where
  "ablocks m bs = map (\<lambda>b. (b, unat (get_size m b), get_free m b \<noteq> 0)) bs"

definition mark_free :: "ablock list \<Rightarrow> addr \<Rightarrow> ablock list" where
  "mark_free l x = map (\<lambda>(b, n, f). (b, n, f \<or> b = x)) l"

fun merge_next :: "ablock list \<Rightarrow> addr \<Rightarrow> ablock list" where
  "merge_next [] x = []"
| "merge_next [(b, n, f)] x = [(b, n, f)]"
| "merge_next ((b, n, f) # (c, k, g) # rest) x =
     (if b = x then (if g then (b, n + 40 + k, f) # rest else (b, n, f) # (c, k, g) # rest)
      else (b, n, f) # merge_next ((c, k, g) # rest) x)"





subsection \<open>Growing in place\<close>

text \<open>
  The test \<^verbatim>\<open>realloc\<close> makes, on a block too small for the request, before it extends
  the block over the block behind it: that block lies below the heap top, is free, and the
  two payloads with the header and footer between them hold the aligned request.
\<close>

definition grows_in_place :: "state \<Rightarrow> addr \<Rightarrow> size_t \<Rightarrow> bool" where
  "grows_in_place s ptr sz \<longleftrightarrow>
     (let block = ptr - sizeof_metadata;
          old_size = get_size (mem s) block;
          new_size = aligned_size sz;
          nxt = block + sizeof_metadata + old_size + sizeof_footer;
          combined = old_size + sizeof_metadata + get_size (mem s) nxt + sizeof_footer
      in nxt < heap_top s \<and> get_free (mem s) nxt \<noteq> 0 \<and> new_size \<le> combined)"

subsection \<open>Reading outcomes, and some concrete heaps\<close>

fun state_after :: "state \<Rightarrow> 'a outcome option \<Rightarrow> state" where
  "state_after d (Some (Ret s x)) = s"
| "state_after d (Some (Abort msg s)) = s"
| "state_after d None = d"

fun value_of :: "'a outcome option \<Rightarrow> 'a option" where
  "value_of (Some (Ret s x)) = Some x"
| "value_of (Some (Abort msg s)) = None"
| "value_of None = None"

text \<open>A process that has not allocated yet: the break is at 4096 and may rise to 8192.\<close>

definition fresh_state :: state where
  "fresh_state =
     \<lparr>mem = (\<lambda>_. 0), free_list_head = 0, heap_top = 0, heap_start = 0,
      brk = 4096, brk_limit = 8192\<rparr>"

text \<open>The block record that \<^verbatim>\<open>malloc\<close> writes: header fields and footer.\<close>

definition write_block :: "memory \<Rightarrow> addr \<Rightarrow> size_t \<Rightarrow> 32 word \<Rightarrow> addr \<Rightarrow> addr \<Rightarrow> memory" where
  "write_block m b sz fr nx pv =
     set_footer (set_prev (set_next (set_free (set_size m b sz) b fr) b nx) b pv) b"




text \<open>
  A heap of two blocks of 16 bytes: the first, at 4096, is free and alone on the free
  list; the second, at 4152, is allocated.  In \<open>overrun_heap\<close> the \<^verbatim>\<open>next\<close> link of the
  first block has been overwritten with the address of the second.
\<close>

definition two_blocks :: state where
  "two_blocks =
     \<lparr>mem = write_block (write_block (\<lambda>_. 0) 4096 16 1 0 0) 4152 16 0 0 0,
      free_list_head = 4096, heap_top = 4208, heap_start = 4096,
      brk = 4208, brk_limit = 8192\<rparr>"

definition overrun_heap :: state where
  "overrun_heap = two_blocks\<lparr>mem := set_next (mem two_blocks) 4096 4152\<rparr>"

text \<open>
  Heaps of three blocks of 16 bytes at 4096, 4152 and 4208.  In \<open>three_allocated\<close> all
  three are allocated; in \<open>free_then_two\<close> the first one is free and on the free list.
\<close>

definition three_allocated :: state where
  "three_allocated =
     \<lparr>mem = write_block (write_block (write_block (\<lambda>_. 0) 4096 16 0 0 0) 4152 16 0 0 0)
              4208 16 0 0 0,
      free_list_head = 0, heap_top = 4264, heap_start = 4096,
      brk = 4264, brk_limit = 8192\<rparr>"




text \<open>
  A heap of an allocated block of 16 bytes at 4096 followed by a free block of 64 bytes
  at 4152.
\<close>

definition used_then_free :: state where
  "used_then_free =
     \<lparr>mem = write_block (write_block (\<lambda>_. 0) 4096 16 0 0 0) 4152 64 1 0 0,
      free_list_head = 4152, heap_top = 4256, heap_start = 4096,
      brk = 4256, brk_limit = 8192\<rparr>"


text \<open>
  The heap after \<^verbatim>\<open>malloc(8)\<close> in a fresh process: one allocated block of 8 bytes at 4096,
  the break at 4144.  \<open>wrapped\<close> is that heap after a block record of size \<open>2^64 - 40\<close>
  has been written at the break.
\<close>

definition one_used_8 :: state where
  "one_used_8 =
     \<lparr>mem = write_block (\<lambda>_. 0) 4096 8 0 0 0,
      free_list_head = 0, heap_top = 4144, heap_start = 4096,
      brk = 4144, brk_limit = 8192\<rparr>"

definition wrapped :: state where
  "wrapped = one_used_8\<lparr>mem := write_block (mem one_used_8) 4144 18446744073709551576 0 0 0\<rparr>"





text \<open>
  A heap of three free blocks of 16 bytes at 4096, 4152 and 4208, linked in that order
  on the free list.  In \<open>skipped\<close> the \<^verbatim>\<open>next\<close> link of the first block has been
  overwritten with the address of the third, so that the walk from the head of the list
  passes the second block by.
\<close>

definition three_free :: state where
  "three_free =
     \<lparr>mem = write_block (write_block (write_block (\<lambda>_. 0) 4096 16 1 4152 0) 4152 16 1 4208 4096)
              4208 16 1 0 4152,
      free_list_head = 4096, heap_top = 4264, heap_start = 4096,
      brk = 4264, brk_limit = 8192\<rparr>"

definition skipped :: state where
  "skipped = three_free\<lparr>mem := set_next (mem three_free) 4096 4208\<rparr>"

section \<open>Loads and stores\<close>

lemma length_load_bytes [simp]: "length (load_bytes m a n) = n"
  by (induction n arbitrary: a) auto

lemma nth_load_bytes: "i < n \<Longrightarrow> load_bytes m a n ! i = m (a + of_nat i)"
proof (induction n arbitrary: a i)
  case 0 then show ?case by simp
next
  case (Suc n)
  show ?case
  proof (cases i)
    case 0 then show ?thesis by simp
  next
    case (Suc j)
    with Suc.prems have "j < n" by simp
    from Suc.IH [OF this, of "a + 1"] Suc show ?thesis by (simp add: add.assoc)
  qed
qed

lemma load_bytes_cong:
  "(\<And>i. i < n \<Longrightarrow> m' (a + of_nat i) = m (a + of_nat i)) \<Longrightarrow> load_bytes m' a n = load_bytes m a n"
  by (rule nth_equalityI) (simp_all add: nth_load_bytes)

lemma unat_minus_one_64: "unat (- 1 :: 64 word) = 2 ^ 64 - 1"
  by (simp add: unsigned_minus_1_eq_mask mask_eq_exp_minus_1)

lemma store_bytes_apply:
  "length bs \<le> 2 ^ 64 \<Longrightarrow>
   store_bytes m a bs x = (if unat (x - a) < length bs then bs ! unat (x - a) else m x)"
proof (induction bs arbitrary: m a)
  case Nil then show ?case by simp
next
  case (Cons b bs)
  have e: "x - (a + 1) = x - a - 1" by simp
  show ?case
  proof (cases "x = a")
    case True
    then have "unat (x - (a + 1)) = 2 ^ 64 - 1" by (simp add: unat_minus_one_64)
    with Cons True show ?thesis by simp
  next
    case False
    then have "x - a \<noteq> 0" by simp
    then have "unat (x - (a + 1)) = unat (x - a) - 1" "unat (x - a) \<noteq> 0"
      unfolding e by (simp_all add: unat_minus_one unat_eq_0)
    with Cons False show ?thesis by (auto simp: nth_Cons')
  qed
qed

lemma unat_of_nat_64: "i < 2 ^ 64 \<Longrightarrow> unat (of_nat i :: 64 word) = i"
  by (simp add: unat_of_nat)

lemma load_store_bytes_same:
  assumes "length bs = n" "n \<le> 2 ^ 64"
  shows "load_bytes (store_bytes m a bs) a n = bs"
proof (rule nth_equalityI)
  show "length (load_bytes (store_bytes m a bs) a n) = length bs" using assms by simp
next
  fix i assume "i < length (load_bytes (store_bytes m a bs) a n)"
  then have i: "i < n" by simp
  then have "unat (of_nat i :: 64 word) = i" using assms by (simp add: unat_of_nat_64)
  then show "load_bytes (store_bytes m a bs) a n ! i = bs ! i"
    using i assms by (simp add: nth_load_bytes store_bytes_apply)
qed

lemma store_bytes_outside:
  assumes "unat a + length bs \<le> 2 ^ 64" "unat x < unat a \<or> unat a + length bs \<le> unat x"
  shows "store_bytes m a bs x = m x"
proof -
  have xl: "unat x < 2 ^ 64" using unsigned_less [of x] by simp
  have "\<not> unat (x - a) < length bs"
    using assms xl by (auto simp: unat_sub_if')
  moreover have "length bs \<le> 2 ^ 64" using assms by simp
  ultimately show ?thesis by (simp add: store_bytes_apply)
qed

lemma unat_plus_of_nat: "unat b + i < 2 ^ 64 \<Longrightarrow> unat (b + of_nat i :: 64 word) = unat b + i"
  by (simp add: unat_add_lem [THEN iffD1] unat_of_nat_64)

lemma load_store_bytes_apart:
  assumes "apart a (length bs) b n"
  shows "load_bytes (store_bytes m a bs) b n = load_bytes m b n"
proof (rule load_bytes_cong)
  fix i assume i: "i < n"
  then have "unat (b + of_nat i) = unat b + i"
    using assms by (intro unat_plus_of_nat) (simp add: apart_def)
  then show "store_bytes m a bs (b + of_nat i) = m (b + of_nat i)"
    using assms i by (intro store_bytes_outside) (auto simp: apart_def)
qed

lemma length_bytes_of [simp]: "length (bytes_of n v) = n"
  by (simp add: bytes_of_def)

lemma word_of_bytes_bytes_of:
  "LENGTH('a::len) \<le> 8 * n \<Longrightarrow> word_of_bytes (bytes_of n v) = (v :: 'a word)"
  unfolding word_of_bytes_def bytes_of_def
  apply (rule bit_word_eqI)
  apply (simp add: bit_word_of_int_iff bit_horner_sum_uint_exp_iff [where 'a = 8, simplified] bit_simps)
  apply (auto simp: bit_simps less_mult_imp_div_less mult.commute)
  done

lemma load64_store64_same [simp]: "load64 (store64 m a v) a = v"
  by (simp add: load64_def store64_def load_store_bytes_same word_of_bytes_bytes_of)

lemma load32_store32_same [simp]: "load32 (store32 m a v) a = v"
  by (simp add: load32_def store32_def load_store_bytes_same word_of_bytes_bytes_of)

lemma load64_store64_apart: "apart a 8 b 8 \<Longrightarrow> load64 (store64 m a v) b = load64 m b"
  by (simp add: load64_def store64_def load_store_bytes_apart)

lemma load64_store32_apart: "apart a 4 b 8 \<Longrightarrow> load64 (store32 m a v) b = load64 m b"
  by (simp add: load64_def store32_def load_store_bytes_apart)

lemma load32_store64_apart: "apart a 8 b 4 \<Longrightarrow> load32 (store64 m a v) b = load32 m b"
  by (simp add: load32_def store64_def load_store_bytes_apart)

lemma load32_store32_apart: "apart a 4 b 4 \<Longrightarrow> load32 (store32 m a v) b = load32 m b"
  by (simp add: load32_def store32_def load_store_bytes_apart)

lemmas load_store_apart = load64_store64_apart load64_store32_apart load32_store64_apart load32_store32_apart

lemma unat_off:
  fixes b :: addr
  assumes "unat b + 32 \<le> 2 ^ 64"
  shows "unat (b + 8) = unat b + 8" "unat (b + 16) = unat b + 16" "unat (b + 24) = unat b + 24"
  using assms by (simp_all add: unat_add_lem [THEN iffD1])

lemma get_size_set_size: "hsep b c \<Longrightarrow> get_size (set_size m c v) b = (if b = c then v else get_size m b)"
  by (auto simp: hsep_def get_size_def set_size_def apart_def unat_off intro!: load_store_apart)
lemma get_size_set_free: "hsep b c \<Longrightarrow> get_size (set_free m c v) b = get_size m b"
  by (auto simp: hsep_def get_size_def set_free_def apart_def unat_off intro!: load_store_apart)
lemma get_next_set_prev: "hsep b c \<Longrightarrow> get_next (set_prev m c v) b = get_next m b"
  by (auto simp: hsep_def get_next_def set_prev_def apart_def unat_off intro!: load_store_apart)
lemma get_next_set_next: "hsep b c \<Longrightarrow> get_next (set_next m c v) b = (if b = c then v else get_next m b)"
  by (auto simp: hsep_def get_next_def set_next_def apart_def unat_off intro!: load_store_apart)
lemma get_free_set_next: "hsep b c \<Longrightarrow> get_free (set_next m c v) b = get_free m b"
  by (auto simp: hsep_def get_free_def set_next_def apart_def unat_off intro!: load_store_apart)

lemma get_free_set_size: "hsep b c \<Longrightarrow> get_free (set_size m c v) b = get_free m b"
  by (auto simp: hsep_def get_free_def set_size_def apart_def unat_off intro!: load_store_apart)

lemma get_next_set_size: "hsep b c \<Longrightarrow> get_next (set_size m c v) b = get_next m b"
  by (auto simp: hsep_def get_next_def set_size_def apart_def unat_off intro!: load_store_apart)

lemma get_prev_set_size: "hsep b c \<Longrightarrow> get_prev (set_size m c v) b = get_prev m b"
  by (auto simp: hsep_def get_prev_def set_size_def apart_def unat_off intro!: load_store_apart)

lemma get_free_set_free: "hsep b c \<Longrightarrow> get_free (set_free m c v) b = (if b = c then v else get_free m b)"
  by (auto simp: hsep_def get_free_def set_free_def apart_def unat_off intro!: load_store_apart)

lemma get_next_set_free: "hsep b c \<Longrightarrow> get_next (set_free m c v) b = get_next m b"
  by (auto simp: hsep_def get_next_def set_free_def apart_def unat_off intro!: load_store_apart)

lemma get_prev_set_free: "hsep b c \<Longrightarrow> get_prev (set_free m c v) b = get_prev m b"
  by (auto simp: hsep_def get_prev_def set_free_def apart_def unat_off intro!: load_store_apart)

lemma get_size_set_next: "hsep b c \<Longrightarrow> get_size (set_next m c v) b = get_size m b"
  by (auto simp: hsep_def get_size_def set_next_def apart_def unat_off intro!: load_store_apart)

lemma get_prev_set_next: "hsep b c \<Longrightarrow> get_prev (set_next m c v) b = get_prev m b"
  by (auto simp: hsep_def get_prev_def set_next_def apart_def unat_off intro!: load_store_apart)

lemma get_size_set_prev: "hsep b c \<Longrightarrow> get_size (set_prev m c v) b = get_size m b"
  by (auto simp: hsep_def get_size_def set_prev_def apart_def unat_off intro!: load_store_apart)

lemma get_free_set_prev: "hsep b c \<Longrightarrow> get_free (set_prev m c v) b = get_free m b"
  by (auto simp: hsep_def get_free_def set_prev_def apart_def unat_off intro!: load_store_apart)

lemma get_prev_set_prev: "hsep b c \<Longrightarrow> get_prev (set_prev m c v) b = (if b = c then v else get_prev m b)"
  by (auto simp: hsep_def get_prev_def set_prev_def apart_def unat_off intro!: load_store_apart)

lemma load64_set_size: "fsep f c \<Longrightarrow> load64 (set_size m c v) f = load64 m f"
  by (auto simp: fsep_def set_size_def apart_def unat_off intro!: load_store_apart)

lemma load64_set_free: "fsep f c \<Longrightarrow> load64 (set_free m c v) f = load64 m f"
  by (auto simp: fsep_def set_free_def apart_def unat_off intro!: load_store_apart)

lemma load64_set_next: "fsep f c \<Longrightarrow> load64 (set_next m c v) f = load64 m f"
  by (auto simp: fsep_def set_next_def apart_def unat_off intro!: load_store_apart)

lemma load64_set_prev: "fsep f c \<Longrightarrow> load64 (set_prev m c v) f = load64 m f"
  by (auto simp: fsep_def set_prev_def apart_def unat_off intro!: load_store_apart)

lemma get_size_store64: "fsep f c \<Longrightarrow> get_size (store64 m f v) c = get_size m c"
  by (auto simp: fsep_def get_size_def apart_def unat_off intro!: load_store_apart)

lemma get_free_store64: "fsep f c \<Longrightarrow> get_free (store64 m f v) c = get_free m c"
  by (auto simp: fsep_def get_free_def apart_def unat_off intro!: load_store_apart)

lemma get_next_store64: "fsep f c \<Longrightarrow> get_next (store64 m f v) c = get_next m c"
  by (auto simp: fsep_def get_next_def apart_def unat_off intro!: load_store_apart)

lemma get_prev_store64: "fsep f c \<Longrightarrow> get_prev (store64 m f v) c = get_prev m c"
  by (auto simp: fsep_def get_prev_def apart_def unat_off intro!: load_store_apart)

lemma load64_store64: "f = g \<or> apart f 8 g 8 \<Longrightarrow> load64 (store64 m f v) g = (if f = g then v else load64 m g)"
  by (auto simp: load64_store64_apart)

lemma get_size_store_bytes: "apart p (length xs) c 32 \<Longrightarrow> get_size (store_bytes m p xs) c = get_size m c"
  by (auto simp: get_size_def load64_def apart_def unat_off intro!: load_store_bytes_apart arg_cong [where f = word_of_bytes])

lemma get_free_store_bytes: "apart p (length xs) c 32 \<Longrightarrow> get_free (store_bytes m p xs) c = get_free m c"
  by (auto simp: get_free_def load32_def apart_def unat_off intro!: load_store_bytes_apart arg_cong [where f = word_of_bytes])

lemma get_next_store_bytes: "apart p (length xs) c 32 \<Longrightarrow> get_next (store_bytes m p xs) c = get_next m c"
  by (auto simp: get_next_def load64_def apart_def unat_off intro!: load_store_bytes_apart arg_cong [where f = word_of_bytes])

lemma get_prev_store_bytes: "apart p (length xs) c 32 \<Longrightarrow> get_prev (store_bytes m p xs) c = get_prev m c"
  by (auto simp: get_prev_def load64_def apart_def unat_off intro!: load_store_bytes_apart arg_cong [where f = word_of_bytes])

lemma load64_store_bytes: "apart p (length xs) f 8 \<Longrightarrow> load64 (store_bytes m p xs) f = load64 m f"
  by (simp add: load64_def load_store_bytes_apart)

subsection \<open>Outcomes\<close>




lemma Ret_unique: "r = Some (Ret a x) \<Longrightarrow> r = Some (Ret b y) \<Longrightarrow> a = b \<and> x = y"
  by (simp only: option.inject outcome.inject)

section \<open>Walking the free list\<close>

lemma remove_loop_absent:
  "chain (mem s) h xs 0 \<Longrightarrow> block \<notin> set xs \<Longrightarrow> remove_loop s h block = Some (Ret s ())"
proof (induction xs arbitrary: h)
  case Nil
  then show ?case by (subst remove_loop.simps) simp
next
  case (Cons x xs)
  then show ?case by (subst remove_loop.simps) auto
qed

lemma remove_loop_found:
  "chain (mem s) h xs block \<Longrightarrow> block \<notin> set xs \<Longrightarrow> block \<noteq> 0 \<Longrightarrow>
   remove_loop s h block = Some (unlink_block s block)"
proof (induction xs arbitrary: h)
  case Nil
  then show ?case by (subst remove_loop.simps) simp
next
  case (Cons x xs)
  then show ?case by (subst remove_loop.simps) auto
qed

section \<open>Fields of blocks\<close>

lemmas fld_simps =
  get_size_set_size get_size_set_free get_size_set_next get_size_set_prev
  get_free_set_size get_free_set_free get_free_set_next get_free_set_prev
  get_next_set_size get_next_set_free get_next_set_next get_next_set_prev
  get_prev_set_size get_prev_set_free get_prev_set_next get_prev_set_prev
  load64_set_size load64_set_free load64_set_next load64_set_prev
  get_size_store64 get_free_store64 get_next_store64 get_prev_store64

lemma load_bytes_zero: "load_bytes (\<lambda>_. 0) a n = replicate n 0"
  by (induction n arbitrary: a) simp_all

lemma load64_zero [simp]: "load64 (\<lambda>_. 0) a = 0"
  by (simp add: load64_def load_bytes_zero word_of_bytes_def eval_nat_numeral)

lemma load32_zero [simp]: "load32 (\<lambda>_. 0) a = 0"
  by (simp add: load32_def load_bytes_zero word_of_bytes_def eval_nat_numeral)

lemma get_zero [simp]:
  "get_size (\<lambda>_. 0) b = 0" "get_free (\<lambda>_. 0) b = 0" "get_next (\<lambda>_. 0) b = 0" "get_prev (\<lambda>_. 0) b = 0"
  by (simp_all add: get_size_def get_free_def get_next_def get_prev_def)

lemma write_block_fields:
  assumes "hsep c b" "fsep (b + 32 + sz) c"
  shows "get_size (write_block m b sz fr nx pv) c = (if c = b then sz else get_size m c)"
    and "get_free (write_block m b sz fr nx pv) c = (if c = b then fr else get_free m c)"
    and "get_next (write_block m b sz fr nx pv) c = (if c = b then nx else get_next m c)"
    and "get_prev (write_block m b sz fr nx pv) c = (if c = b then pv else get_prev m c)"
proof -
  have bb: "hsep b b" using assms by (simp add: hsep_def)
  have s: "get_size (set_prev (set_next (set_free (set_size m b sz) b fr) b nx) b pv) b = sz"
    using bb by (simp add: fld_simps)
  show "get_size (write_block m b sz fr nx pv) c = (if c = b then sz else get_size m c)"
    and "get_free (write_block m b sz fr nx pv) c = (if c = b then fr else get_free m c)"
    and "get_next (write_block m b sz fr nx pv) c = (if c = b then nx else get_next m c)"
    and "get_prev (write_block m b sz fr nx pv) c = (if c = b then pv else get_prev m c)"
    using assms by (simp_all add: write_block_def set_footer_def s fld_simps)
qed

lemma write_block_load64:
  assumes "fsep f b" "f = b + 32 + sz \<or> apart (b + 32 + sz) 8 f 8" "hsep b b"
  shows "load64 (write_block m b sz fr nx pv) f = (if f = b + 32 + sz then sz else load64 m f)"
proof -
  have s: "get_size (set_prev (set_next (set_free (set_size m b sz) b fr) b nx) b pv) b = sz"
    using assms(3) by (simp add: fld_simps)
  show ?thesis using assms(1,2)
    by (auto simp: write_block_def set_footer_def s fld_simps load64_store64_apart)
qed

section \<open>The heap invariant\<close>

lemma tiles_le: "tiles_by g a bs t \<Longrightarrow> a \<le> t"
proof (induction bs arbitrary: a)
  case Nil then show ?case by simp
next
  case (Cons x bs)
  from Cons.IH [of "a + 40 + unat (g x)"] Cons.prems show ?case by simp
qed

lemma tiles_bounds:
  "tiles_by g a bs t \<Longrightarrow> b \<in> set bs \<Longrightarrow> a \<le> unat b \<and> unat b + 40 + unat (g b) \<le> t"
proof (induction bs arbitrary: a)
  case Nil then show ?case by simp
next
  case (Cons x bs)
  show ?case
  proof (cases "b = x")
    case True
    with Cons.prems tiles_le [of g "a + 40 + unat (g x)" bs t] show ?thesis by simp
  next
    case False
    with Cons.prems Cons.IH [of "a + 40 + unat (g x)"] show ?thesis by auto
  qed
qed

lemma tiles_sep:
  "tiles_by g a bs t \<Longrightarrow> b \<in> set bs \<Longrightarrow> c \<in> set bs \<Longrightarrow> b \<noteq> c \<Longrightarrow>
   unat b + 40 + unat (g b) \<le> unat c \<or> unat c + 40 + unat (g c) \<le> unat b"
proof (induction bs arbitrary: a)
  case Nil then show ?case by simp
next
  case (Cons x bs)
  let ?a' = "a + 40 + unat (g x)"
  from Cons.prems have t: "unat x = a" "tiles_by g ?a' bs t" by simp_all
  consider "b = x" "c \<in> set bs" | "c = x" "b \<in> set bs" | "b \<in> set bs" "c \<in> set bs"
    using Cons.prems by auto
  then show ?case
  proof cases
    case 1 with t tiles_bounds [OF t(2), of c] show ?thesis by simp
  next
    case 2 with t tiles_bounds [OF t(2), of b] show ?thesis by simp
  next
    case 3 with Cons.IH [OF t(2)] Cons.prems show ?thesis by simp
  qed
qed

lemma tiles_distinct: "tiles_by g a bs t \<Longrightarrow> distinct bs"
proof (induction bs arbitrary: a)
  case Nil then show ?case by simp
next
  case (Cons x bs)
  let ?a' = "a + 40 + unat (g x)"
  from Cons.prems have t: "unat x = a" "tiles_by g ?a' bs t" by simp_all
  have "x \<notin> set bs" using tiles_bounds [OF t(2), of x] t by auto
  with Cons.IH [OF t(2)] show ?case by simp
qed

lemma tiles_append:
  "tiles_by g a (xs @ ys) t \<longleftrightarrow> (\<exists>u. tiles_by g a xs u \<and> tiles_by g u ys t)"
  by (induction xs arbitrary: a) auto

lemma tiles_cong:
  "(\<And>b. b \<in> set bs \<Longrightarrow> g' b = g b) \<Longrightarrow> tiles_by g' a bs t = tiles_by g a bs t"
  by (induction bs arbitrary: a) auto

lemma dll_cong:
  "(\<And>b. b \<in> set xs \<Longrightarrow> get_next m' b = get_next m b \<and> get_prev m' b = get_prev m b) \<Longrightarrow>
   dll m' p xs h = dll m p xs h"
  by (induction xs arbitrary: p h) auto

lemma dll_nonzero: "dll m p xs h \<Longrightarrow> 0 \<notin> set xs"
  by (induction xs arbitrary: p h) auto

lemma dll_chain: "dll m p xs h \<Longrightarrow> chain m h xs 0"
  by (induction xs arbitrary: p h) auto


lemma unat_footer:
  fixes b :: addr
  assumes "unat b + 40 + unat s \<le> t" "t < 2 ^ 64"
  shows "unat (b + 32 + s) = unat b + 32 + unat s"
proof -
  have "unat (b + 32) = unat b + 32" using assms by (simp add: unat_add_lem [THEN iffD1])
  then show ?thesis using assms by (simp add: unat_add_lem [THEN iffD1])
qed

lemma tiles_laid:
  assumes "tiles_by g a bs t" "t < 2 ^ 64"
  shows "laid_by g (set bs)"
  unfolding laid_by_def
proof (intro ballI conjI)
  fix b c assume bc: "b \<in> set bs" "c \<in> set bs"
  note bb = tiles_bounds [OF assms(1) bc(1)] and cb = tiles_bounds [OF assms(1) bc(2)]
  note fb = unat_footer [of b "g b" t] and fc = unat_footer [of c "g c" t]
  have sep: "b = c \<or> unat b + 40 + unat (g b) \<le> unat c \<or> unat c + 40 + unat (g c) \<le> unat b"
    using tiles_sep [OF assms(1) bc] by blast
  show "hsep b c" using bb cb sep assms(2) by (auto simp: hsep_def)
  show "fsep (b + 32 + g b) c" using bb cb sep assms(2) fb by (auto simp: fsep_def)
  show "b = c \<or> apart (b + 32 + g b) 8 (c + 32 + g c) 8"
    using bb cb sep assms(2) fb fc by (auto simp: apart_def)
qed

lemma heap_inv_top: "heap_inv s bs fl \<Longrightarrow> unat (heap_top s) < 2 ^ 64"
  using unsigned_less [of "heap_top s"] by simp

lemma heap_inv_laid: "heap_inv s bs fl \<Longrightarrow> laid (mem s) (set bs)"
  using tiles_laid [of "get_size (mem s)" "unat (heap_start s)" bs "unat (heap_top s)"] unsigned_less [of "heap_top s"]
  by (simp add: heap_inv_def)

lemma heap_inv_nonzero:
  assumes "heap_inv s bs fl" "b \<in> set bs"
  shows "b \<noteq> 0"
proof -
  from assms have t: "tiles (mem s) (unat (heap_start s)) bs (unat (heap_top s))"
    by (simp add: heap_inv_def)
  from tiles_bounds [OF t assms(2)] have b: "unat (heap_start s) \<le> unat b" "unat b + 40 \<le> unat (heap_top s)" by simp_all
  then have "heap_top s \<noteq> 0" by auto
  with assms(1) have "heap_start s \<noteq> 0" by (auto simp: heap_inv_def)
  then have "unat (heap_start s) \<noteq> 0" by (simp add: unat_eq_0)
  with b show ?thesis by auto
qed

lemma add_to_free_list_globals [simp]:
  "heap_top (add_to_free_list s x) = heap_top s"
  "heap_start (add_to_free_list s x) = heap_start s"
  "brk (add_to_free_list s x) = brk s"
  "brk_limit (add_to_free_list s x) = brk_limit s"
  "free_list_head (add_to_free_list s x) = x"
  by (simp_all add: add_to_free_list_def Let_def)

lemma add_to_free_list_fields:
  assumes inv: "heap_inv s bs fl" and x: "x \<in> set bs" "x \<notin> set fl" and b: "b \<in> set bs"
  shows "get_size (mem (add_to_free_list s x)) b = get_size (mem s) b"
    and "get_footer_size (mem (add_to_free_list s x)) b = get_footer_size (mem s) b"
    and "get_free (mem (add_to_free_list s x)) b = (if b = x then 1 else get_free (mem s) b)"
    and "get_next (mem (add_to_free_list s x)) b = (if b = x then free_list_head s else get_next (mem s) b)"
    and "get_prev (mem (add_to_free_list s x)) b =
           (if b = free_list_head s then x else if b = x then 0 else get_prev (mem s) b)"
proof -
  let ?m = "mem s"
  from heap_inv_laid [OF inv]
  have L: "\<forall>b\<in>set bs. \<forall>c\<in>set bs. hsep b c" "\<forall>b\<in>set bs. \<forall>c\<in>set bs. fsep (b + 32 + get_size ?m b) c"
    by (simp_all add: laid_by_def)
  from inv have fl: "set fl \<subseteq> set bs" "dll ?m 0 fl (free_list_head s)"
    by (simp_all add: heap_inv_def)
  have h: "free_list_head s \<noteq> 0 \<Longrightarrow> free_list_head s \<in> set bs" "free_list_head s \<noteq> x"
    using fl x heap_inv_nonzero [OF inv x(1)] by (cases fl; auto)+
  note b0 = heap_inv_nonzero [OF inv b]
  show "get_size (mem (add_to_free_list s x)) b = get_size (mem s) b"
    using x b h L by (simp add: add_to_free_list_def Let_def fld_simps)
  then show "get_footer_size (mem (add_to_free_list s x)) b = get_footer_size (mem s) b"
    using x b h L by (simp add: get_footer_size_def footer_of_def) (simp add: add_to_free_list_def Let_def fld_simps)
  show "get_free (mem (add_to_free_list s x)) b = (if b = x then 1 else get_free (mem s) b)"
    using x b h L by (simp add: add_to_free_list_def Let_def fld_simps)
  show "get_next (mem (add_to_free_list s x)) b = (if b = x then free_list_head s else get_next (mem s) b)"
    using x b h L by (simp add: add_to_free_list_def Let_def fld_simps)
  show "get_prev (mem (add_to_free_list s x)) b =
           (if b = free_list_head s then x else if b = x then 0 else get_prev (mem s) b)"
    using x b b0 h L by (simp add: add_to_free_list_def Let_def fld_simps)
qed

lemma add_to_free_list_inv:
  assumes inv: "heap_inv s bs fl" and x: "x \<in> set bs" "x \<notin> set fl"
  shows "heap_inv (add_to_free_list s x) bs (x # fl)"
proof -
  let ?m = "mem s" and ?m' = "mem (add_to_free_list s x)"
  note x0 = heap_inv_nonzero [OF inv x(1)]
  note F = add_to_free_list_fields [OF inv x]
  from inv have fl: "set fl \<subseteq> set bs" "dll ?m 0 fl (free_list_head s)" "distinct fl"
    and t: "tiles ?m (unat (heap_start s)) bs (unat (heap_top s))"
    and ft: "\<forall>b\<in>set bs. get_footer_size ?m b = get_size ?m b"
    and fr: "\<forall>b\<in>set bs. get_free ?m b \<noteq> 0 \<longleftrightarrow> b \<in> set fl"
    by (simp_all add: heap_inv_def)
  have d: "dll ?m' x fl (free_list_head s)"
  proof (cases fl)
    case Nil with fl show ?thesis by simp
  next
    case (Cons h fl')
    with fl x have h: "free_list_head s = h" "h \<in> set bs" "h \<noteq> x" "h \<notin> set fl'" "x \<notin> set fl'" "set fl' \<subseteq> set bs"
      by auto
    have "dll ?m' h fl' (get_next ?m h) = dll ?m h fl' (get_next ?m h)"
      using h by (intro dll_cong) (auto simp: F)
    then show ?thesis using fl Cons h by (auto simp: F)
  qed
  have "free_list_head s \<noteq> x" using fl x x0 by (cases fl) auto
  then have "dll ?m' 0 (x # fl) x" using d x x0 by (simp add: F)
  moreover have "tiles ?m' (unat (heap_start s)) bs (unat (heap_top s))"
    using t by (simp add: F cong: tiles_cong)
  ultimately show ?thesis using inv x fl ft fr
    by (auto simp: heap_inv_def break_ok_def F)
qed

lemma dll_mid:
  "dll m p (xs @ x # ys) h \<Longrightarrow>
     get_next m x = (case ys of [] \<Rightarrow> 0 | y # _ \<Rightarrow> y) \<and>
     get_prev m x = (if xs = [] then p else last xs) \<and> x \<noteq> 0 \<and>
     h = (if xs = [] then x else hd xs)"
proof (induction xs arbitrary: p h)
  case Nil then show ?case by (cases ys) auto
next
  case (Cons z xs)
  from Cons.prems have "dll m z (xs @ x # ys) (get_next m z)" by simp
  from Cons.IH [OF this] Cons.prems show ?case by auto
qed

lemma dll_mid_neighbours:
  "dll m p (xs @ x # ys) h \<Longrightarrow>
     (ys \<noteq> [] \<longrightarrow> get_prev m (hd ys) = x) \<and> (xs \<noteq> [] \<longrightarrow> get_next m (last xs) = x)"
proof (induction xs arbitrary: p h)
  case Nil then show ?case by (cases ys) auto
next
  case (Cons z xs)
  from Cons.prems have d: "dll m z (xs @ x # ys) (get_next m z)" by simp
  from Cons.IH [OF d] dll_mid [OF d] show ?case by auto
qed

lemma dll_chain_prefix: "dll m p (xs @ x # ys) h \<Longrightarrow> chain m h xs x"
proof (induction xs arbitrary: p h)
  case Nil then show ?case by simp
next
  case (Cons z xs)
  from Cons.prems have "dll m z (xs @ x # ys) (get_next m z)" by simp
  from Cons.IH [OF this] Cons.prems show ?case by simp
qed

lemma dll_remove:
  assumes "dll m p (xs @ x # ys) h" "distinct (xs @ x # ys)" "p \<notin> set (xs @ x # ys)"
    and "\<And>b. b \<in> set (xs @ ys) \<Longrightarrow>
           get_next m' b = (if b = get_prev m x then get_next m x else get_next m b) \<and>
           get_prev m' b = (if b = get_next m x then get_prev m x else get_prev m b)"
  shows "dll m' p (xs @ ys) (if xs = [] then get_next m x else h)"
  using assms
proof (induction xs arbitrary: p h)
  case Nil
  note F = Nil.prems(4)
  from Nil.prems have x: "get_prev m x = p" "dll m x ys (get_next m x)" by simp_all
  show ?case
  proof (cases ys)
    case Nil with x show ?thesis by simp
  next
    case (Cons y ys')
    with x have y: "get_next m x = y" "y \<noteq> 0" "get_prev m y = x" "dll m y ys' (get_next m y)" by simp_all
    have yp: "y \<noteq> p" using Nil.prems(3) Cons by auto
    have "dll m' y ys' (get_next m y) = dll m y ys' (get_next m y)"
      using Nil.prems(2,3) Cons x y by (intro dll_cong) (auto simp: F)
    then show ?thesis using Cons x y yp F [of y] by simp
  qed
next
  case (Cons z xs)
  note F = Cons.prems(4)
  from Cons.prems have z: "h = z" "z \<noteq> 0" "get_prev m z = p" and d: "dll m z (xs @ x # ys) (get_next m z)"
    by simp_all
  have "dll m' z (xs @ ys) (if xs = [] then get_next m x else get_next m z)"
    using Cons.prems(2) F by (intro Cons.IH [OF d]) auto
  moreover have "get_prev m' z = p"
  proof -
    have "z \<noteq> get_next m x" using dll_mid [OF d] z Cons.prems(2) by (cases ys) auto
    then show ?thesis using F [of z] z by simp
  qed
  moreover have "get_next m' z = (if xs = [] then get_next m x else get_next m z)"
  proof -
    have "get_prev m x = (if xs = [] then z else last xs)" using dll_mid [OF d] by simp
    moreover have "xs \<noteq> [] \<Longrightarrow> last xs \<noteq> z" using Cons.prems(2) by auto
    ultimately show ?thesis using F [of z] by auto
  qed
  ultimately show ?case using z by simp
qed

lemma unlink_block_ok:
  assumes "m1 = set_free (mem s) x 0"
    and "\<not> (get_next m1 x \<noteq> 0 \<and> get_prev m1 (get_next m1 x) \<noteq> x)"
    and "\<not> (get_prev m1 x \<noteq> 0 \<and> get_next m1 (get_prev m1 x) \<noteq> x)"
    and "m3 = (if get_next m1 x \<noteq> 0 then set_prev m1 (get_next m1 x) (get_prev m1 x) else m1)"
    and "m4 = (if get_prev m3 x \<noteq> 0 then set_next m3 (get_prev m3 x) (get_next m3 x) else m3)"
  shows "unlink_block s x =
     Ret (s\<lparr>mem := set_prev (set_next m4 x 0) x 0,
            free_list_head := (if x = free_list_head s then get_next m1 x else free_list_head s)\<rparr>) ()"
proof (cases "x = free_list_head s")
  case True
  with assms show ?thesis by (simp add: unlink_block_def Let_def)
next
  case False
  with assms show ?thesis by (simp add: unlink_block_def Let_def)
qed

lemma unlink_block_inv:
  assumes inv: "heap_inv s bs fl" and x: "x \<in> set fl"
  obtains s' where "unlink_block s x = Ret s' ()"
    and "heap_inv s' bs (remove1 x fl)"
    and "heap_top s' = heap_top s" "heap_start s' = heap_start s" "brk s' = brk s"
        "brk_limit s' = brk_limit s"
    and "\<And>b. b \<in> set bs \<Longrightarrow> get_size (mem s') b = get_size (mem s) b"
proof -
  let ?m = "mem s"
  define nxt prv where "nxt = get_next ?m x" and "prv = get_prev ?m x"
  from heap_inv_laid [OF inv]
  have L: "\<forall>b\<in>set bs. \<forall>c\<in>set bs. hsep b c" "\<forall>b\<in>set bs. \<forall>c\<in>set bs. fsep (b + 32 + get_size ?m b) c"
    by (simp_all add: laid_by_def)
  from inv have fl: "set fl \<subseteq> set bs" "dll ?m 0 fl (free_list_head s)" "distinct fl"
    and t: "tiles ?m (unat (heap_start s)) bs (unat (heap_top s))"
    and ft: "\<forall>b\<in>set bs. get_footer_size ?m b = get_size ?m b"
    and fr: "\<forall>b\<in>set bs. get_free ?m b \<noteq> 0 \<longleftrightarrow> b \<in> set fl"
    by (simp_all add: heap_inv_def)
  from x obtain xs ys where sp: "fl = xs @ x # ys" by (auto dest: split_list)
  have r: "remove1 x fl = xs @ ys" using fl(3) sp by (simp add: remove1_append)
  note d = fl(2) [unfolded sp]
  note nz = dll_nonzero [OF d]
  have xb: "x \<in> set bs" "x \<noteq> 0" using fl x nz sp by auto
  from dll_mid [OF d] have
    nx: "nxt = (case ys of [] \<Rightarrow> 0 | y # _ \<Rightarrow> y)" and pv: "prv = (if xs = [] then 0 else last xs)"
    and hd: "free_list_head s = (if xs = [] then x else hd xs)"
    by (simp_all add: nxt_def prv_def)
  have nb: "nxt \<noteq> 0 \<Longrightarrow> nxt \<in> set bs \<and> nxt \<noteq> x \<and> nxt \<in> set ys \<and> get_prev ?m nxt = x"
    using nx fl sp nz dll_mid_neighbours [OF d] by (cases ys) auto
  have pb: "prv \<noteq> 0 \<Longrightarrow> prv \<in> set bs \<and> prv \<noteq> x \<and> prv \<in> set xs \<and> get_next ?m prv = x"
    using pv fl sp nz dll_mid_neighbours [OF d] by (cases "xs = []") auto
  have np: "nxt \<noteq> 0 \<Longrightarrow> prv \<noteq> 0 \<Longrightarrow> nxt \<noteq> prv" using nb pb fl(3) sp by auto
  define m1 where "m1 = set_free ?m x 0"
  define m3 where "m3 = (if nxt \<noteq> 0 then set_prev m1 nxt prv else m1)"
  define m4 where "m4 = (if prv \<noteq> 0 then set_next m3 prv nxt else m3)"
  define m6 where "m6 = set_prev (set_next m4 x 0) x 0"
  define s' where "s' = s\<lparr>mem := m6, free_list_head := (if xs = [] then nxt else free_list_head s)\<rparr>"
  have F1: "get_size m1 b = get_size ?m b"
      "get_free m1 b = (if b = x then 0 else get_free ?m b)"
      "get_next m1 b = get_next ?m b" "get_prev m1 b = get_prev ?m b"
    if "b \<in> set bs" for b
    using that xb L by (simp_all add: m1_def fld_simps)
  have F3: "get_size m3 b = get_size ?m b"
      "get_free m3 b = (if b = x then 0 else get_free ?m b)"
      "get_next m3 b = get_next ?m b"
      "get_prev m3 b = (if b = nxt then prv else get_prev ?m b)"
    if "b \<in> set bs" for b
  proof -
    note b0 = heap_inv_nonzero [OF inv that]
    show "get_size m3 b = get_size ?m b"
      "get_free m3 b = (if b = x then 0 else get_free ?m b)"
      "get_next m3 b = get_next ?m b"
      "get_prev m3 b = (if b = nxt then prv else get_prev ?m b)"
      using that nb L b0 by (cases "nxt = 0"; simp add: m3_def fld_simps F1)+
  qed
  have F4: "get_size m4 b = get_size ?m b"
      "get_free m4 b = (if b = x then 0 else get_free ?m b)"
      "get_next m4 b = (if b = prv then nxt else get_next ?m b)"
      "get_prev m4 b = (if b = nxt then prv else get_prev ?m b)"
    if "b \<in> set bs" for b
  proof -
    note b0 = heap_inv_nonzero [OF inv that]
    show "get_size m4 b = get_size ?m b"
      "get_free m4 b = (if b = x then 0 else get_free ?m b)"
      "get_next m4 b = (if b = prv then nxt else get_next ?m b)"
      "get_prev m4 b = (if b = nxt then prv else get_prev ?m b)"
      using that pb L b0 by (cases "prv = 0"; simp add: m4_def fld_simps F3)+
  qed
  have F: "get_size m6 b = get_size ?m b"
      "get_free m6 b = (if b = x then 0 else get_free ?m b)"
      "get_next m6 b = (if b = x then 0 else if b = prv then nxt else get_next ?m b)"
      "get_prev m6 b = (if b = x then 0 else if b = nxt then prv else get_prev ?m b)"
    if "b \<in> set bs" for b
    using that xb L by (simp_all add: m6_def fld_simps F4)
  have c1: "\<not> (get_next m1 x \<noteq> 0 \<and> get_prev m1 (get_next m1 x) \<noteq> x)"
    using xb nb by (cases "nxt = 0") (simp_all add: F1 nxt_def [symmetric])
  have c2: "\<not> (get_prev m1 x \<noteq> 0 \<and> get_next m1 (get_prev m1 x) \<noteq> x)"
    using xb pb by (cases "prv = 0") (simp_all add: F1 prv_def [symmetric])
  have e1: "get_next m1 x = nxt" "get_prev m1 x = prv"
    using xb by (simp_all add: F1 nxt_def prv_def)
  have e3: "get_next m3 x = nxt" "get_prev m3 x = prv"
    using xb nb by (simp_all add: F3 nxt_def [symmetric] prv_def [symmetric])
  have hd': "(x = free_list_head s) = (xs = [])"
    using hd fl(3) sp by (cases xs) auto
  have m3': "m3 = (if get_next m1 x \<noteq> 0 then set_prev m1 (get_next m1 x) (get_prev m1 x) else m1)"
    unfolding e1 by (rule m3_def)
  have m4': "m4 = (if get_prev m3 x \<noteq> 0 then set_next m3 (get_prev m3 x) (get_next m3 x) else m3)"
    unfolding e3 by (rule m4_def)
  have "unlink_block s x =
     Ret (s\<lparr>mem := set_prev (set_next m4 x 0) x 0,
            free_list_head := (if x = free_list_head s then get_next m1 x else free_list_head s)\<rparr>) ()"
    by (rule unlink_block_ok [OF m1_def c1 c2 m3' m4'])
  then have u: "unlink_block s x = Ret s' ()"
    by (simp add: s'_def m6_def e1 hd')
  have Fo: "get_footer_size m6 b = get_footer_size ?m b" if "b \<in> set bs" for b
  proof -
    have f1: "load64 m1 (b + 32 + get_size ?m b) = load64 ?m (b + 32 + get_size ?m b)"
      using that xb L by (simp add: m1_def fld_simps)
    have f3: "load64 m3 (b + 32 + get_size ?m b) = load64 ?m (b + 32 + get_size ?m b)"
      using that nb L f1 by (cases "nxt = 0") (simp_all add: m3_def fld_simps)
    have f4: "load64 m4 (b + 32 + get_size ?m b) = load64 ?m (b + 32 + get_size ?m b)"
      using that pb L f3 by (cases "prv = 0") (simp_all add: m4_def fld_simps)
    have "load64 m6 (b + 32 + get_size ?m b) = load64 ?m (b + 32 + get_size ?m b)"
      using that xb L f4 by (simp add: m6_def fld_simps)
    then show ?thesis using F(1) [OF that] by (simp add: get_footer_size_def footer_of_def)
  qed
  have "dll m6 0 (xs @ ys) (if xs = [] then get_next ?m x else free_list_head s)"
  proof (rule dll_remove [OF d])
    show "distinct (xs @ x # ys)" using fl(3) sp by simp
    show "0 \<notin> set (xs @ x # ys)" by (rule nz)
    fix b assume "b \<in> set (xs @ ys)"
    then have "b \<in> set bs" "b \<noteq> x" using fl sp by auto
    then show "get_next m6 b = (if b = get_prev ?m x then get_next ?m x else get_next ?m b) \<and>
           get_prev m6 b = (if b = get_next ?m x then get_prev ?m x else get_prev ?m b)"
      by (simp add: F nxt_def prv_def)
  qed
  then have dl: "dll (mem s') 0 (remove1 x fl) (free_list_head s')"
    by (cases "xs = []") (simp_all add: s'_def r nxt_def)
  have g: "heap_top s' = heap_top s" "heap_start s' = heap_start s" "brk s' = brk s"
    "brk_limit s' = brk_limit s" "mem s' = m6"
    by (simp_all add: s'_def)
  have "tiles m6 (unat (heap_start s)) bs (unat (heap_top s)) = tiles ?m (unat (heap_start s)) bs (unat (heap_top s))"
    by (rule tiles_cong) (simp add: F)
  then have ti: "tiles (mem s') (unat (heap_start s')) bs (unat (heap_top s'))"
    using t by (simp add: g)
  have "heap_inv s' bs (remove1 x fl)"
    unfolding heap_inv_def
  proof (intro conjI)
    show "break_ok s'" "heap_top s' = 0 \<or> heap_top s' = brk s' \<and> heap_start s' \<noteq> 0"
      using inv by (simp_all add: heap_inv_def break_ok_def s'_def)
    show "tiles (mem s') (unat (heap_start s')) bs (unat (heap_top s'))" by (rule ti)
    show "\<forall>b\<in>set bs. get_footer_size (mem s') b = get_size (mem s') b"
      using ft by (simp add: s'_def F Fo)
    show "dll (mem s') 0 (remove1 x fl) (free_list_head s')" by (rule dl)
    show "distinct (remove1 x fl)" using fl(3) by simp
    show "set (remove1 x fl) \<subseteq> set bs" using fl(1) by (auto dest: notin_set_remove1)
    show "\<forall>b\<in>set bs. (get_free (mem s') b \<noteq> 0) = (b \<in> set (remove1 x fl))"
      using fr fl(3) by (auto simp: s'_def F)
  qed
  with u show ?thesis
    by (rule that) (simp_all add: s'_def F)
qed

lemma remove_from_free_list_inv:
  assumes inv: "heap_inv s bs fl" and x: "x \<in> set fl"
  obtains s' where "remove_from_free_list s x = Some (Ret s' ())"
    and "heap_inv s' bs (remove1 x fl)"
    and "heap_top s' = heap_top s" "heap_start s' = heap_start s" "brk s' = brk s"
        "brk_limit s' = brk_limit s"
    and "\<And>b. b \<in> set bs \<Longrightarrow> get_size (mem s') b = get_size (mem s) b"
proof -
  from inv have fl: "dll (mem s) 0 fl (free_list_head s)" "distinct fl"
    by (simp_all add: heap_inv_def)
  from x obtain xs ys where sp: "fl = xs @ x # ys" by (auto dest: split_list)
  have "chain (mem s) (free_list_head s) xs x" using dll_chain_prefix fl(1) sp by simp
  moreover have "x \<notin> set xs" "x \<noteq> 0" using fl sp dll_nonzero [OF fl(1)] by auto
  ultimately have "remove_from_free_list s x = Some (unlink_block s x)"
    by (simp add: remove_from_free_list_def remove_loop_found)
  with unlink_block_inv [OF inv x] that show ?thesis by metis
qed

lemma find_free_loop_chain:
  "chain m h xs 0 \<Longrightarrow>
   find_free_loop m h sz = Some (case List.find (\<lambda>b. sz \<le> get_size m b) xs of None \<Rightarrow> 0 | Some b \<Rightarrow> b)"
proof (induction xs arbitrary: h)
  case Nil
  then show ?case by (subst find_free_loop.simps) simp
next
  case (Cons x xs)
  then show ?case by (subst find_free_loop.simps) auto
qed

lemma find_free_block_inv:
  assumes "heap_inv s bs fl"
  shows "find_free_block s sz =
           Some (case List.find (\<lambda>b. sz \<le> get_size (mem s) b) fl of None \<Rightarrow> 0 | Some b \<Rightarrow> b)"
proof -
  from assms have d: "dll (mem s) 0 fl (free_list_head s)" by (simp add: heap_inv_def)
  show ?thesis
  proof (cases "free_list_head s = 0")
    case True
    with d have "fl = []" by (cases fl) auto
    with True show ?thesis by (simp add: find_free_block_def)
  next
    case False
    then show ?thesis using find_free_loop_chain [OF dll_chain [OF d]] by (simp add: find_free_block_def)
  qed
qed

lemma unat_next_block:
  fixes x :: addr
  assumes "unat x + 40 + unat sx < 2 ^ 64"
  shows "unat (x + 32 + sx + 8) = unat x + 40 + unat sx"
proof -
  have "unat (x + 32) = unat x + 32" using assms by (simp add: unat_add_lem [THEN iffD1])
  then have "unat (x + 32 + sx) = unat x + 32 + unat sx" using assms by (simp add: unat_add_lem [THEN iffD1])
  then show ?thesis using assms by (simp add: unat_add_lem [THEN iffD1])
qed

lemma tiles_next:
  assumes "tiles m a (pre @ x # y # post) t" "t < 2 ^ 64"
  shows "y = x + 32 + get_size m x + 8" "x + 32 + get_size m x + 8 \<noteq> of_nat t"
proof -
  from assms(1) obtain u where u: "tiles m u (x # y # post) t" by (auto simp: tiles_append)
  then have y: "unat y = unat x + 40 + unat (get_size m x)" by simp
  from tiles_bounds [OF u, of y] have yb: "unat y + 40 \<le> t" by simp
  have "unat x + 40 + unat (get_size m x) < 2 ^ 64" using y yb assms(2) by simp
  from unat_next_block [OF this] have e: "unat (x + 32 + get_size m x + 8) = unat y"
    using y by simp
  then show "y = x + 32 + get_size m x + 8" by (simp add: word_unat_eq_iff)
  show "x + 32 + get_size m x + 8 \<noteq> of_nat t"
  proof
    assume "x + 32 + get_size m x + 8 = of_nat t"
    then have "unat (x + 32 + get_size m x + 8) = t" using assms(2) by (simp add: unat_of_nat)
    with e yb show False by simp
  qed
qed

lemma tiles_last:
  assumes "tiles m a (pre @ [x]) t" "t < 2 ^ 64"
  shows "x + 32 + get_size m x + 8 = of_nat t"
proof -
  from assms(1) have y: "t = unat x + 40 + unat (get_size m x)" by (auto simp: tiles_append)
  then have "unat x + 40 + unat (get_size m x) < 2 ^ 64" using assms(2) by simp
  from unat_next_block [OF this] have "unat (x + 32 + get_size m x + 8) = t" using y by simp
  then show ?thesis by (metis of_nat_unat ucast_id)
qed

lemma unat_merged_size:
  fixes a b :: size_t
  assumes "unat a + 40 + unat b < 2 ^ 64"
  shows "unat (a + 8 + 32 + b) = unat a + 40 + unat b"
proof -
  have "unat (a + 8) = unat a + 8" using assms by (simp add: unat_add_lem [THEN iffD1])
  then have "unat (a + 8 + 32) = unat a + 40" using assms by (simp add: unat_add_lem [THEN iffD1])
  then show ?thesis using assms by (simp add: unat_add_lem [THEN iffD1])
qed

lemma merge_inv:
  assumes inv: "heap_inv s bs fl" and bs: "bs = pre @ x # y # post" and nf: "y \<notin> set fl"
    and S: "S = get_size (mem s) x + 8 + 32 + get_size (mem s) y"
    and s': "s' = s\<lparr>mem := set_footer (set_size (mem s) x S) x\<rparr>"
  shows "heap_inv s' (pre @ x # post) fl"
    and "get_size (mem s') x = S"
    and "unat S = unat (get_size (mem s) x) + 40 + unat (get_size (mem s) y)"
    and "\<And>b. b \<in> set (pre @ post) \<Longrightarrow> get_size (mem s') b = get_size (mem s) b"
proof -
  let ?m = "mem s" and ?t = "unat (heap_top s)" and ?a = "unat (heap_start s)"
  let ?sx = "get_size ?m x" and ?sy = "get_size ?m y"
  from heap_inv_laid [OF inv]
  have L: "\<forall>b\<in>set bs. \<forall>c\<in>set bs. hsep b c" "\<forall>b\<in>set bs. \<forall>c\<in>set bs. fsep (b + 32 + get_size ?m b) c"
    "\<forall>b\<in>set bs. \<forall>c\<in>set bs. b = c \<or> apart (b + 32 + get_size ?m b) 8 (c + 32 + get_size ?m c) 8"
    by (simp_all add: laid_by_def)
  from inv have fl: "set fl \<subseteq> set bs" "dll ?m 0 fl (free_list_head s)" "distinct fl"
    and t: "tiles ?m ?a bs ?t"
    and ft: "\<forall>b\<in>set bs. get_footer_size ?m b = get_size ?m b"
    and fr: "\<forall>b\<in>set bs. get_free ?m b \<noteq> 0 \<longleftrightarrow> b \<in> set fl"
    by (simp_all add: heap_inv_def)
  have tl: "?t < 2 ^ 64" using unsigned_less [of "heap_top s"] by simp
  have mem: "x \<in> set bs" "y \<in> set bs" by (simp_all add: bs)
  have dist: "distinct bs" using tiles_distinct [OF t] .
  then have xy: "x \<noteq> y" "x \<notin> set pre" "x \<notin> set post" "y \<notin> set pre" "y \<notin> set post"
    by (auto simp: bs)
  from t obtain u where u: "tiles ?m ?a pre u" "unat x = u"
    "unat y = u + 40 + unat ?sx" "tiles ?m (unat y + 40 + unat ?sy) post ?t"
    by (auto simp: bs tiles_append)
  from tiles_le [OF u(4)] have yb: "unat y + 40 + unat ?sy \<le> ?t" .
  have y: "y = x + 32 + ?sx + 8" using tiles_next [OF t [unfolded bs] tl] by simp
  have uS: "unat S = unat ?sx + 40 + unat ?sy"
    unfolding S using u yb tl by (intro unat_merged_size) simp
  have f: "x + 32 + S = y + 32 + ?sy" by (simp add: S y)
  define m1 where "m1 = set_size ?m x S"
  have m': "mem s' = store64 m1 (y + 32 + ?sy) S"
    using mem L by (simp add: s' set_footer_def m1_def fld_simps f)
  have F: "get_size (mem s') b = (if b = x then S else get_size ?m b)"
      "get_free (mem s') b = get_free ?m b"
      "get_next (mem s') b = get_next ?m b"
      "get_prev (mem s') b = get_prev ?m b"
    if "b \<in> set bs" for b
    using that mem L by (simp_all add: m' m1_def fld_simps)
  have Fo: "get_footer_size (mem s') b = (if b = x then S else get_footer_size ?m b)"
    if "b \<in> set bs" "b \<noteq> y" for b
  proof (cases "b = x")
    case True
    have "get_footer_size (mem s') x = load64 (mem s') (x + 32 + S)"
      using F(1) [OF mem(1)] by (simp add: get_footer_size_def footer_of_def)
    also have "\<dots> = S" unfolding f by (simp add: m')
    finally show ?thesis using True by simp
  next
    case False
    have "apart (y + 32 + ?sy) 8 (b + 32 + get_size ?m b) 8"
      using that mem L(3) by auto
    then have "load64 (mem s') (b + 32 + get_size ?m b) = load64 m1 (b + 32 + get_size ?m b)"
      by (simp add: m' load64_store64_apart)
    also have "\<dots> = load64 ?m (b + 32 + get_size ?m b)"
      using that mem L by (simp add: m1_def fld_simps)
    finally show ?thesis using False that by (simp add: get_footer_size_def footer_of_def F)
  qed
  have g: "heap_top s' = heap_top s" "heap_start s' = heap_start s" "brk s' = brk s"
    "free_list_head s' = free_list_head s"
    by (simp_all add: s')
  have t1: "tiles (mem s') ?a pre u = tiles ?m ?a pre u"
    using xy by (intro tiles_cong) (auto simp: F bs)
  have t2: "tiles (mem s') (unat y + 40 + unat ?sy) post ?t = tiles ?m (unat y + 40 + unat ?sy) post ?t"
    using xy by (intro tiles_cong) (auto simp: F bs)
  have pos: "unat x + 40 + unat S = unat y + 40 + unat ?sy" using uS u by simp
  have "tiles (mem s') (unat x + 40 + unat S) post ?t" unfolding pos using t2 u by simp
  then have "tiles (mem s') (unat x) (x # post) ?t" using mem by (simp add: F)
  then have ti: "tiles (mem s') ?a (pre @ x # post) ?t"
    unfolding tiles_append using u t1 by blast
  have dl: "dll (mem s') 0 fl (free_list_head s) = dll ?m 0 fl (free_list_head s)"
    using fl(1) by (intro dll_cong) (auto simp: F)
  show "heap_inv s' (pre @ x # post) fl"
    unfolding heap_inv_def g
  proof (intro conjI)
    show "break_ok s'" "heap_top s = 0 \<or> heap_top s = brk s \<and> heap_start s \<noteq> 0"
      using inv by (simp_all add: heap_inv_def break_ok_def s')
    show "tiles (mem s') ?a (pre @ x # post) ?t" by (rule ti)
    show "\<forall>b\<in>set (pre @ x # post). get_footer_size (mem s') b = get_size (mem s') b"
    proof
      fix b assume "b \<in> set (pre @ x # post)"
      then have "b \<in> set bs" "b \<noteq> y" using xy by (auto simp: bs)
      then show "get_footer_size (mem s') b = get_size (mem s') b" using ft by (simp add: F Fo)
    qed
    show "dll (mem s') 0 fl (free_list_head s)" using dl fl by simp
    show "distinct fl" by (rule fl)
    show "set fl \<subseteq> set (pre @ x # post)" using fl(1) nf by (auto simp: bs)
    show "\<forall>b\<in>set (pre @ x # post). (get_free (mem s') b \<noteq> 0) = (b \<in> set fl)"
      using fr by (auto simp: F bs)
  qed
  show "get_size (mem s') x = S" using mem by (simp add: F)
  show "unat S = unat ?sx + 40 + unat ?sy" by (rule uS)
  show "get_size (mem s') b = get_size ?m b" if "b \<in> set (pre @ post)" for b
    using that xy by (auto simp: F bs)
qed

lemma bind_outcome_simps [simp]:
  "bind_outcome (Some (Ret s x)) f = f s x"
  "bind_outcome (Some (Abort msg s)) f = Some (Abort msg s)"
  "bind_outcome None f = None"
  by (simp_all add: bind_outcome_def)

lemma heap_top_of_nat: "of_nat (unat (heap_top s)) = heap_top s"
  by simp

lemma coalesce_next_last:
  assumes inv: "heap_inv s bs fl" and bs: "bs = pre @ [x]"
  shows "coalesce_next s x = Some (Ret s ())"
proof -
  from inv have t: "tiles (mem s) (unat (heap_start s)) (pre @ [x]) (unat (heap_top s))"
    by (simp add: heap_inv_def bs)
  have "x + 32 + get_size (mem s) x + 8 = heap_top s"
    using tiles_last [OF t] unsigned_less [of "heap_top s"] by simp
  then show ?thesis by (simp add: coalesce_next_def)
qed

lemma next_block_addr:
  assumes inv: "heap_inv s bs fl" and bs: "bs = pre @ x # y # post"
  shows "x + 32 + get_size (mem s) x + 8 = y" "y \<noteq> heap_top s"
proof -
  from inv have t: "tiles (mem s) (unat (heap_start s)) (pre @ x # y # post) (unat (heap_top s))"
    by (simp add: heap_inv_def bs)
  have tl: "unat (heap_top s) < 2 ^ 64" using unsigned_less [of "heap_top s"] by simp
  from tiles_next [OF t tl] show "x + 32 + get_size (mem s) x + 8 = y" "y \<noteq> heap_top s"
    by simp_all
qed

lemma coalesce_next_alloc:
  assumes inv: "heap_inv s bs fl" and bs: "bs = pre @ x # y # post" and y: "y \<notin> set fl"
  shows "coalesce_next s x = Some (Ret s ())"
proof -
  have "get_free (mem s) y = 0" using inv y by (auto simp: heap_inv_def bs)
  then show ?thesis using next_block_addr [OF inv bs] by (simp add: coalesce_next_def)
qed

lemma coalesce_next_merge:
  assumes inv: "heap_inv s bs fl" and bs: "bs = pre @ x # y # post"
    and x: "x \<in> set fl" and y: "y \<in> set fl"
  obtains s' where "coalesce_next s x = Some (Ret s' ())"
    and "heap_inv s' (pre @ x # post) (x # remove1 y (remove1 x fl))"
    and "get_size (mem s') x = get_size (mem s) x + 8 + 32 + get_size (mem s) y"
    and "unat (get_size (mem s') x) = unat (get_size (mem s) x) + 40 + unat (get_size (mem s) y)"
    and "\<And>b. b \<in> set (pre @ post) \<Longrightarrow> get_size (mem s') b = get_size (mem s) b"
    and "heap_top s' = heap_top s" "heap_start s' = heap_start s" "brk s' = brk s"
        "brk_limit s' = brk_limit s"
proof -
  have mem: "x \<in> set bs" "y \<in> set bs" by (simp_all add: bs)
  have fy: "get_free (mem s) y \<noteq> 0" using inv y mem by (auto simp: heap_inv_def)
  from inv have dist: "distinct bs" "distinct fl"
    using tiles_distinct by (auto simp: heap_inv_def)
  then have xy: "x \<noteq> y" "x \<notin> set pre" "x \<notin> set post" "y \<notin> set pre" "y \<notin> set post"
    by (auto simp: bs)
  from remove_from_free_list_inv [OF inv x] obtain s1 where
    r1: "remove_from_free_list s x = Some (Ret s1 ())" and i1: "heap_inv s1 bs (remove1 x fl)"
    and g1: "heap_top s1 = heap_top s" "heap_start s1 = heap_start s" "brk s1 = brk s"
      "brk_limit s1 = brk_limit s"
    and z1: "\<And>b. b \<in> set bs \<Longrightarrow> get_size (mem s1) b = get_size (mem s) b"
    by metis
  have y1: "y \<in> set (remove1 x fl)" using y xy by simp
  from remove_from_free_list_inv [OF i1 y1] obtain s2 where
    r2: "remove_from_free_list s1 y = Some (Ret s2 ())"
    and i2: "heap_inv s2 bs (remove1 y (remove1 x fl))"
    and g2: "heap_top s2 = heap_top s1" "heap_start s2 = heap_start s1" "brk s2 = brk s1"
      "brk_limit s2 = brk_limit s1"
    and z2: "\<And>b. b \<in> set bs \<Longrightarrow> get_size (mem s2) b = get_size (mem s1) b"
    by metis
  define S where "S = get_size (mem s2) x + 8 + 32 + get_size (mem s2) y"
  define s3 where "s3 = s2\<lparr>mem := set_footer (set_size (mem s2) x S) x\<rparr>"
  have y2: "y \<notin> set (remove1 y (remove1 x fl))" "x \<notin> set (remove1 y (remove1 x fl))"
    using dist by (auto dest: notin_set_remove1)
  note M = merge_inv [OF i2 bs y2(1) S_def s3_def]
  have x3: "x \<in> set (pre @ x # post)" by simp
  note A = add_to_free_list_inv [OF M(1) x3 y2(2)]
  note AF = add_to_free_list_fields [OF M(1) x3 y2(2)]
  have Sv: "S = get_size (mem s) x + 8 + 32 + get_size (mem s) y"
    using mem by (simp add: S_def z1 z2)
  have c: "coalesce_next s x = Some (Ret (add_to_free_list s3 x) ())"
    using next_block_addr [OF inv bs] fy r1 r2
    by (simp add: coalesce_next_def Let_def s3_def S_def)
  show ?thesis
  proof (rule that [OF c A])
    show "get_size (mem (add_to_free_list s3 x)) x = get_size (mem s) x + 8 + 32 + get_size (mem s) y"
      using AF(1) [OF x3] M(2) Sv by simp
    then show "unat (get_size (mem (add_to_free_list s3 x)) x) = unat (get_size (mem s) x) + 40 + unat (get_size (mem s) y)"
      using M(3) Sv mem by (simp add: z1 z2)
    show "get_size (mem (add_to_free_list s3 x)) b = get_size (mem s) b" if "b \<in> set (pre @ post)" for b
    proof -
      from that have "b \<in> set (pre @ x # post)" "b \<in> set bs" by (auto simp: bs)
      then show ?thesis using AF(1) M(4) [OF that] by (simp add: z1 z2)
    qed
  qed (simp_all add: s3_def g1 g2)
qed





section \<open>Release against the spec\<close>

lemma ablocks_append [simp]: "ablocks m (xs @ ys) = ablocks m xs @ ablocks m ys"
  by (simp add: ablocks_def)

lemma ablocks_Cons [simp]:
  "ablocks m (b # bs) = (b, unat (get_size m b), get_free m b \<noteq> 0) # ablocks m bs"
  by (simp add: ablocks_def)

lemma ablocks_Nil [simp]: "ablocks m [] = []"
  by (simp add: ablocks_def)

lemma ablocks_cong:
  "(\<And>b. b \<in> set bs \<Longrightarrow> get_size m' b = get_size m b \<and> (get_free m' b \<noteq> 0) = (get_free m b \<noteq> 0)) \<Longrightarrow>
   ablocks m' bs = ablocks m bs"
  by (simp add: ablocks_def)

lemma fst_ablocks [simp]: "map fst (ablocks m bs) = bs"
  by (simp add: ablocks_def comp_def)

lemma merge_next_prefix:
  "x \<notin> fst ` set pre \<Longrightarrow> merge_next (pre @ l) x = pre @ merge_next l x"
proof (induction pre)
  case Nil then show ?case by simp
next
  case (Cons p pre)
  obtain b n f where p: "p = (b, n, f)" by (cases p)
  show ?case
  proof (cases "pre @ l")
    case Nil then show ?thesis using p by simp
  next
    case (Cons q r)
    obtain c k g where q: "q = (c, k, g)" by (cases q)
    from Cons.prems p have "b \<noteq> x" by auto
    then have "merge_next (p # pre @ l) x = p # merge_next (pre @ l) x"
      using Cons q p by simp
    with Cons.IH Cons.prems show ?thesis by simp
  qed
qed



lemma flags_of_inv:
  "heap_inv s bs fl \<Longrightarrow> b \<in> set bs \<Longrightarrow> (get_free (mem s) b \<noteq> 0) = (b \<in> set fl)"
  by (simp add: heap_inv_def)

lemma inv_subset: "heap_inv s bs fl \<Longrightarrow> set fl \<subseteq> set bs"
  by (simp add: heap_inv_def)

lemma inv_distinct: "heap_inv s bs fl \<Longrightarrow> distinct bs \<and> distinct fl"
  using tiles_distinct by (auto simp: heap_inv_def)

lemma coalesce_next_refines:
  assumes inv: "heap_inv s bs fl" and x: "x \<in> set fl"
  obtains s' bs' fl' where "coalesce_next s x = Some (Ret s' ())" "heap_inv s' bs' fl'"
    "x \<in> set fl'" "ablocks (mem s') bs' = merge_next (ablocks (mem s) bs) x"
    "heap_top s' = heap_top s" "heap_start s' = heap_start s" "brk s' = brk s"
    "brk_limit s' = brk_limit s"
proof -
  from x inv_subset [OF inv] have "x \<in> set bs" by auto
  then obtain pre post where bs: "bs = pre @ x # post" by (auto dest: split_list)
  note dist = inv_distinct [OF inv]
  then have xp: "x \<notin> set pre" "x \<notin> set post" by (auto simp: bs)
  then have xf: "x \<notin> fst ` set (ablocks (mem s) pre)" by (simp add: ablocks_def image_iff)
  show ?thesis
  proof (cases post)
    case Nil
    with bs have b2: "bs = pre @ [x]" by simp
    have "ablocks (mem s) bs = merge_next (ablocks (mem s) bs) x"
      using xf by (simp add: b2 merge_next_prefix)
    with coalesce_next_last [OF inv b2] inv x show ?thesis by (intro that [of s bs fl]) simp_all
  next
    case (Cons y post')
    with bs have b2: "bs = pre @ x # y # post'" by simp
    show ?thesis
    proof (cases "y \<in> set fl")
      case False
      then have "get_free (mem s) y = 0" using flags_of_inv [OF inv, of y] b2 by simp
      then have "ablocks (mem s) bs = merge_next (ablocks (mem s) bs) x"
        using xf by (simp add: b2 merge_next_prefix)
      with coalesce_next_alloc [OF inv b2 False] inv x show ?thesis
        by (intro that [of s bs fl]) simp_all
    next
      case True
      from coalesce_next_merge [OF inv b2 x True] obtain s' where
        c: "coalesce_next s x = Some (Ret s' ())"
        and i: "heap_inv s' (pre @ x # post') (x # remove1 y (remove1 x fl))"
        and z: "unat (get_size (mem s') x) = unat (get_size (mem s) x) + 40 + unat (get_size (mem s) y)"
        and o: "\<And>b. b \<in> set (pre @ post') \<Longrightarrow> get_size (mem s') b = get_size (mem s) b"
        and g: "heap_top s' = heap_top s" "heap_start s' = heap_start s" "brk s' = brk s"
        "brk_limit s' = brk_limit s"
        by metis
      have yp: "y \<notin> set pre" "y \<notin> set post'" "x \<noteq> y" using dist by (auto simp: b2)
      have fo: "(get_free (mem s') b \<noteq> 0) = (get_free (mem s) b \<noteq> 0)" if "b \<in> set (pre @ post')" for b
      proof -
        from that have m: "b \<in> set (pre @ x # post')" "b \<in> set bs" "b \<noteq> x" "b \<noteq> y"
          using xp yp Cons by (auto simp: b2)
        show ?thesis using flags_of_inv [OF i m(1)] flags_of_inv [OF inv m(2)] m by simp
      qed
      have a1: "ablocks (mem s') pre = ablocks (mem s) pre" "ablocks (mem s') post' = ablocks (mem s) post'"
        using o fo by (auto intro!: ablocks_cong)
      have fx: "get_free (mem s') x \<noteq> 0" "get_free (mem s) x \<noteq> 0" "get_free (mem s) y \<noteq> 0"
        using flags_of_inv [OF i, of x] flags_of_inv [OF inv, of x] flags_of_inv [OF inv, of y] x True b2
        by simp_all
      have "ablocks (mem s') (pre @ x # post') = merge_next (ablocks (mem s) bs) x"
        using xf fx z by (simp add: b2 merge_next_prefix a1)
      with c i g show ?thesis by (intro that [of s' "pre @ x # post'" "x # remove1 y (remove1 x fl)"]) simp_all
    qed
  qed
qed


lemma unat_lt64: "unat (w :: 64 word) < 2 ^ 64"
  using unsigned_less [of w, where 'a = nat] by simp

lemma payload_ptr:
  assumes "heap_inv s bs fl" "x \<in> set bs"
  shows "x + 32 \<noteq> 0" "x + 32 - 32 = x"
proof -
  from assms have t: "tiles (mem s) (unat (heap_start s)) bs (unat (heap_top s))"
    by (simp add: heap_inv_def)
  from tiles_bounds [OF t assms(2)] unat_lt64 [of "heap_top s"]
  have "unat x + 32 < 2 ^ 64" by simp
  then have "unat (x + 32) = unat x + 32" by (simp add: unat_add_lem [THEN iffD1])
  then show "x + 32 \<noteq> 0" by (metis add_is_0 unat_eq_0 zero_neq_numeral)
  show "x + 32 - 32 = x" by simp
qed



lemma merge_next_keeps:
  "(y, n, False) \<in> set l \<Longrightarrow> y \<noteq> x \<Longrightarrow> (y, n, False) \<in> set (merge_next l x)"
  by (induction l x rule: merge_next.induct) auto



lemma ablocks_allocated:
  assumes "heap_inv s bs fl" "(x, n, False) \<in> set (ablocks (mem s) bs)"
  shows "x \<in> set bs" "x \<notin> set fl"
proof -
  from assms(2) show x: "x \<in> set bs" by (auto simp: ablocks_def)
  from assms(2) have "get_free (mem s) x = 0" by (auto simp: ablocks_def)
  with flags_of_inv [OF assms(1) x] show "x \<notin> set fl" by simp
qed


lemma mark_free_append [simp]: "mark_free (xs @ ys) x = mark_free xs x @ mark_free ys x"
  by (simp add: mark_free_def)

lemma mark_free_Cons [simp]: "mark_free ((b, n, f) # l) x = (b, n, f \<or> b = x) # mark_free l x"
  by (simp add: mark_free_def)

lemma mark_free_Nil [simp]: "mark_free [] x = []"
  by (simp add: mark_free_def)

lemma mark_free_absent [simp]: "x \<notin> fst ` set l \<Longrightarrow> mark_free l x = l"
  by (induction l) (auto simp: mark_free_def)



section \<open>Splitting\<close>

lemma store_bytes_overwrite:
  assumes "length xs = length ys" "length xs \<le> 2 ^ 64"
  shows "store_bytes (store_bytes m a xs) a ys = store_bytes m a ys"
  using assms by (auto simp: store_bytes_apply fun_eq_iff)

lemma set_free_overwrite: "set_free (set_free m b v) b w = set_free m b w"
  by (simp add: set_free_def store32_def store_bytes_overwrite)

lemma add_to_free_list_overwrite:
  "add_to_free_list (s\<lparr>mem := set_free (mem s) x v\<rparr>) x = add_to_free_list s x"
  by (simp add: add_to_free_list_def Let_def set_free_overwrite)

lemma unat_leftover:
  fixes sx sz :: size_t
  assumes "sz \<le> sx" "48 \<le> sx - sz"
  shows "unat (sx - sz) = unat sx - unat sz" "unat (sx - sz - 32 - 8) = unat sx - unat sz - 40"
    "unat sz + 48 \<le> unat sx"
proof -
  show l: "unat (sx - sz) = unat sx - unat sz" using assms(1) by (simp add: unat_sub)
  have "unat (48 :: size_t) \<le> unat (sx - sz)" using assms(2) by (simp add: word_le_nat_alt)
  then have g: "48 \<le> unat (sx - sz)" by simp
  then show "unat sz + 48 \<le> unat sx" using l by simp
  have "(40 :: size_t) \<le> sx - sz" using g by (simp add: word_le_nat_alt)
  then have "unat (sx - sz - 40) = unat (sx - sz) - 40" by (simp add: unat_sub)
  with l show "unat (sx - sz - 32 - 8) = unat sx - unat sz - 40" by simp
qed

lemma apart_irrefl [simp]: "\<not> apart a 8 a 8"
  by (simp add: apart_def)

lemma carve_inv:
  assumes inv: "heap_inv s bs fl" and bs: "bs = pre @ x # post" and xf: "x \<notin> set fl"
    and le: "sz \<le> get_size (mem s) x" and lo: "48 \<le> get_size (mem s) x - sz"
    and nb: "nb = x + 32 + sz + 8" and lv: "lv = get_size (mem s) x - sz - 32 - 8"
    and m3: "m3 = set_footer (set_free (set_size (mem s) x sz) x 0) x"
    and s': "s' = s\<lparr>mem := set_free (write_block m3 nb lv 1 0 0) nb 0\<rparr>"
  shows "heap_inv s' (pre @ x # nb # post) fl"
    and "get_size m3 x = sz"
    and "get_size (mem s') x = sz" "get_size (mem s') nb = lv"
    and "\<And>b. b \<in> set (pre @ post) \<Longrightarrow> get_size (mem s') b = get_size (mem s) b"
    and "nb \<notin> set bs"
    and "unat sz + 40 + unat lv = unat (get_size (mem s) x)"
proof -
  let ?m = "mem s" and ?t = "unat (heap_top s)" and ?a = "unat (heap_start s)"
  let ?sx = "get_size ?m x"
  let ?bs' = "pre @ x # nb # post"
  define g' where "g' = (get_size ?m)(x := sz, nb := lv)"
  from inv have fl: "set fl \<subseteq> set bs" "dll ?m 0 fl (free_list_head s)" "distinct fl"
    and t: "tiles ?m ?a bs ?t"
    and ft: "\<forall>b\<in>set bs. get_footer_size ?m b = get_size ?m b"
    and fr: "\<forall>b\<in>set bs. get_free ?m b \<noteq> 0 \<longleftrightarrow> b \<in> set fl"
    by (simp_all add: heap_inv_def)
  have tl: "?t < 2 ^ 64" by (rule unat_lt64)
  note ul = unat_leftover [OF le lo]
  have ulv: "unat lv = unat ?sx - unat sz - 40" unfolding lv by (rule ul(2))
  from t obtain u where u: "tiles ?m ?a pre u" "unat x = u" "tiles ?m (u + 40 + unat ?sx) post ?t"
    by (auto simp: bs tiles_append)
  from tiles_le [OF u(3)] have xe: "unat x + 40 + unat ?sx \<le> ?t" using u by simp
  have unb: "unat nb = unat x + 40 + unat sz"
    unfolding nb using xe tl ul by (intro unat_next_block) simp
  have dist: "distinct bs" using tiles_distinct [OF t] .
  then have xp: "x \<notin> set pre" "x \<notin> set post" by (auto simp: bs)
  have np: "nb \<notin> set pre" using tiles_bounds [OF u(1), of nb] unb u by auto
  have nq: "nb \<notin> set post" using tiles_bounds [OF u(3), of nb] unb u ul by auto
  have nx: "nb \<noteq> x" using unb by auto
  show nbs: "nb \<notin> set bs" using np nq nx by (simp add: bs)
  have t1: "tiles_by g' ?a pre u = tiles ?m ?a pre u"
    using xp np by (intro tiles_cong) (auto simp: g'_def)
  have t2: "tiles_by g' (u + 40 + unat ?sx) post ?t = tiles ?m (u + 40 + unat ?sx) post ?t"
    using xp nq by (intro tiles_cong) (auto simp: g'_def)
  have pos: "unat nb + 40 + unat lv = u + 40 + unat ?sx" using unb ulv ul u by simp
  have gx: "g' x = sz" "g' nb = lv" using nx by (simp_all add: g'_def)
  have "tiles_by g' (unat nb + 40 + unat lv) post ?t" unfolding pos using t2 u by simp
  then have "tiles_by g' (unat nb) (nb # post) ?t" by (simp add: gx)
  then have "tiles_by g' (unat x + 40 + unat sz) (nb # post) ?t" unfolding unb .
  then have "tiles_by g' (unat x) (x # nb # post) ?t" by (simp add: gx)
  then have t': "tiles_by g' ?a ?bs' ?t" unfolding tiles_append using u t1 by blast
  define B where "B = set ?bs'"
  from tiles_laid [OF t' tl]
  have L: "\<forall>b\<in>B. \<forall>c\<in>B. hsep b c"
    "\<forall>b\<in>B. \<forall>c\<in>B. fsep (b + 32 + g' b) c"
    "\<forall>b\<in>B. \<forall>c\<in>B. b = c \<or> apart (b + 32 + g' b) 8 (c + 32 + g' c) 8"
    unfolding B_def by (simp_all add: laid_by_def)
  have mx: "x \<in> B" "nb \<in> B" by (simp_all add: B_def)
  have Bmem: "\<And>b. b \<in> set ?bs' \<Longrightarrow> b \<in> B" by (simp add: B_def)
  have fx: "fsep (x + 32 + sz) c" "fsep (nb + 32 + lv) c" if "c \<in> B" for c
    using L(2) mx that gx by metis+
  define m2 where "m2 = set_free (set_size ?m x sz) x 0"
  have m3': "m3 = store64 m2 (x + 32 + sz) sz"
    using L(1) mx by (simp add: m3 m2_def set_footer_def fld_simps)
  have F3: "get_size m3 b = (if b = x then sz else get_size ?m b)"
      "get_free m3 b = (if b = x then 0 else get_free ?m b)"
      "get_next m3 b = get_next ?m b" "get_prev m3 b = get_prev ?m b"
    if "b \<in> B" for b
    using that L(1) mx fx [OF that] by (simp_all add: m3' m2_def fld_simps)
  show "get_size m3 x = sz" using F3(1) [OF mx(1)] by simp
  define m9 where "m9 = set_free (write_block m3 nb lv 1 0 0) nb 0"
  have F: "get_size m9 b = g' b"
      "get_free m9 b = (if b = x \<or> b = nb then 0 else get_free ?m b)"
      "get_next m9 b = (if b = nb then 0 else get_next ?m b)"
      "get_prev m9 b = (if b = nb then 0 else get_prev ?m b)"
    if "b \<in> B" for b
    using that L(1) mx fx [OF that] nx
    by (auto simp: m9_def fld_simps write_block_fields F3 g'_def)
  have Fo: "load64 m9 (b + 32 + g' b) = (if b = x then sz else if b = nb then lv else load64 ?m (b + 32 + get_size ?m b))"
    if "b \<in> B" for b
  proof -
    let ?f = "b + 32 + g' b"
    have a: "fsep ?f nb" "fsep ?f x" "hsep nb nb" using L that mx by auto
    have b1: "?f = nb + 32 + lv \<or> apart (nb + 32 + lv) 8 ?f 8"
      using L(3) that mx(2) gx(2) by metis
    have b2: "x + 32 + sz = ?f \<or> apart (x + 32 + sz) 8 ?f 8"
      using L(3) that mx(1) gx(1) by metis
    have e1: "?f = nb + 32 + lv \<longleftrightarrow> b = nb"
    proof
      assume e: "?f = nb + 32 + lv"
      from L(3) that mx(2) have "b = nb \<or> apart ?f 8 (nb + 32 + g' nb) 8" by blast
      then show "b = nb" unfolding gx e by simp
    qed (simp add: gx)
    have e2: "x + 32 + sz = ?f \<longleftrightarrow> b = x"
    proof
      assume e: "x + 32 + sz = ?f"
      from L(3) that mx(1) have "b = x \<or> apart ?f 8 (x + 32 + g' x) 8" by blast
      then show "b = x" unfolding gx e [symmetric] by simp
    qed (simp add: gx)
    have "load64 m9 ?f = load64 (write_block m3 nb lv 1 0 0) ?f"
      using a by (simp add: m9_def fld_simps)
    also have "\<dots> = (if b = nb then lv else load64 m3 ?f)"
      using a b1 by (simp add: write_block_load64 e1)
    also have "load64 m3 ?f = (if b = x then sz else load64 m2 ?f)"
      using b2 by (simp add: m3' load64_store64 e2)
    also have "load64 m2 ?f = load64 ?m ?f"
      using a by (simp add: m2_def fld_simps)
    finally show ?thesis using nx by (auto simp: g'_def)
  qed
  have g: "heap_top s' = heap_top s" "heap_start s' = heap_start s" "brk s' = brk s"
    "free_list_head s' = free_list_head s" "mem s' = m9"
    by (simp_all add: s' m9_def)
  have ti: "tiles m9 ?a ?bs' ?t"
    using t' tiles_cong [of ?bs' "get_size m9" g' ?a ?t] F(1) Bmem by simp
  have dl: "dll m9 0 fl (free_list_head s) = dll ?m 0 fl (free_list_head s)"
  proof (rule dll_cong)
    fix b assume "b \<in> set fl"
    then have "b \<in> set bs" using fl(1) by auto
    then have "b \<in> B" "b \<noteq> nb" using nbs by (auto simp: bs B_def)
    then show "get_next m9 b = get_next ?m b \<and> get_prev m9 b = get_prev ?m b" by (simp add: F)
  qed
  show "heap_inv s' ?bs' fl"
    unfolding heap_inv_def g
  proof (intro conjI)
    show "break_ok s'" "heap_top s = 0 \<or> heap_top s = brk s \<and> heap_start s \<noteq> 0"
      using inv by (simp_all add: heap_inv_def break_ok_def s')
    show "tiles m9 ?a ?bs' ?t" by (rule ti)
    show "\<forall>b\<in>set ?bs'. get_footer_size m9 b = get_size m9 b"
    proof
      fix b assume b': "b \<in> set ?bs'"
      then have b: "b \<in> B" by (rule Bmem)
      have "get_footer_size m9 b = load64 m9 (b + 32 + g' b)"
        by (simp add: get_footer_size_def footer_of_def F(1) [OF b])
      also have "\<dots> = g' b"
      proof (cases "b = x \<or> b = nb")
        case True then show ?thesis using gx by (auto simp: Fo [OF b])
      next
        case False
        then have "b \<in> set bs" using b' by (auto simp: bs)
        with ft have "load64 ?m (b + 32 + get_size ?m b) = get_size ?m b"
          by (simp add: get_footer_size_def footer_of_def)
        then show ?thesis using False Fo [OF b] by (simp add: g'_def)
      qed
      finally show "get_footer_size m9 b = get_size m9 b" by (simp add: F(1) [OF b])
    qed
    show "dll m9 0 fl (free_list_head s)" using dl fl by simp
    show "distinct fl" by (rule fl)
    show "set fl \<subseteq> set ?bs'" using fl(1) by (auto simp: bs)
    show "\<forall>b\<in>set ?bs'. (get_free m9 b \<noteq> 0) = (b \<in> set fl)"
    proof
      fix b assume b': "b \<in> set ?bs'"
      then have b: "b \<in> B" by (rule Bmem)
      show "(get_free m9 b \<noteq> 0) = (b \<in> set fl)"
      proof (cases "b = x \<or> b = nb")
        case True then show ?thesis using xf nbs fl(1) by (auto simp: F [OF b])
      next
        case False
        then have "b \<in> set bs" using b' by (auto simp: bs)
        with fr False show ?thesis by (simp add: F [OF b])
      qed
    qed
  qed
  show "get_size (mem s') x = sz" "get_size (mem s') nb = lv"
    using F(1) [OF mx(1)] F(1) [OF mx(2)] gx by (simp_all add: g)
  show "get_size (mem s') b = get_size ?m b" if "b \<in> set (pre @ post)" for b
  proof -
    from that have "b \<in> B" "b \<noteq> x" "b \<noteq> nb" using xp np nq by (auto simp: B_def)
    then show ?thesis using F(1) [of b] by (simp add: g g'_def)
  qed
  show "unat sz + 40 + unat lv = unat ?sx" using ulv ul by simp
qed

lemma clear_flag_inv:
  assumes inv: "heap_inv s bs fl" and x: "x \<in> set bs" "x \<notin> set fl"
    and s': "s' = s\<lparr>mem := set_free (mem s) x 0\<rparr>"
  shows "heap_inv s' bs fl" and "\<And>b. b \<in> set bs \<Longrightarrow> get_size (mem s') b = get_size (mem s) b"
proof -
  let ?m = "mem s"
  from heap_inv_laid [OF inv]
  have L: "\<forall>b\<in>set bs. \<forall>c\<in>set bs. hsep b c" "\<forall>b\<in>set bs. \<forall>c\<in>set bs. fsep (b + 32 + get_size ?m b) c"
    by (simp_all add: laid_by_def)
  from inv have fl: "set fl \<subseteq> set bs" "dll ?m 0 fl (free_list_head s)" "distinct fl"
    and t: "tiles ?m (unat (heap_start s)) bs (unat (heap_top s))"
    and ft: "\<forall>b\<in>set bs. get_footer_size ?m b = get_size ?m b"
    and fr: "\<forall>b\<in>set bs. get_free ?m b \<noteq> 0 \<longleftrightarrow> b \<in> set fl"
    by (simp_all add: heap_inv_def)
  have F: "get_size (mem s') b = get_size ?m b"
      "get_free (mem s') b = (if b = x then 0 else get_free ?m b)"
      "get_next (mem s') b = get_next ?m b" "get_prev (mem s') b = get_prev ?m b"
      "get_footer_size (mem s') b = get_footer_size ?m b"
    if "b \<in> set bs" for b
    using that x L by (simp_all add: s' fld_simps get_footer_size_def footer_of_def)
  show "\<And>b. b \<in> set bs \<Longrightarrow> get_size (mem s') b = get_size (mem s) b" by (rule F(1))
  have g: "heap_top s' = heap_top s" "heap_start s' = heap_start s" "brk s' = brk s"
    "free_list_head s' = free_list_head s"
    by (simp_all add: s')
  have ti: "tiles (mem s') (unat (heap_start s)) bs (unat (heap_top s)) = tiles ?m (unat (heap_start s)) bs (unat (heap_top s))"
    by (rule tiles_cong) (simp add: F)
  have dl: "dll (mem s') 0 fl (free_list_head s) = dll ?m 0 fl (free_list_head s)"
    using fl(1) by (intro dll_cong) (auto simp: F)
  have bo: "break_ok s' = break_ok s" by (simp add: break_ok_def s')
  show "heap_inv s' bs fl"
    unfolding heap_inv_def g
    using inv ti dl ft fr x fl bo by (auto simp: heap_inv_def F)
qed

lemma split_block_whole:
  assumes inv: "heap_inv s bs fl" and x: "x \<in> set fl" and lt: "get_size (mem s) x - sz < 48"
  obtains s' where "split_block s x sz = Some (Ret s' ())" "heap_inv s' bs (remove1 x fl)"
    "\<And>b. b \<in> set bs \<Longrightarrow> get_size (mem s') b = get_size (mem s) b"
    "heap_top s' = heap_top s" "heap_start s' = heap_start s" "brk s' = brk s"
    "brk_limit s' = brk_limit s"
proof -
  from remove_from_free_list_inv [OF inv x] obtain s1 where
    r1: "remove_from_free_list s x = Some (Ret s1 ())" and i1: "heap_inv s1 bs (remove1 x fl)"
    and g1: "heap_top s1 = heap_top s" "heap_start s1 = heap_start s" "brk s1 = brk s"
      "brk_limit s1 = brk_limit s"
    and z1: "\<And>b. b \<in> set bs \<Longrightarrow> get_size (mem s1) b = get_size (mem s) b"
    by metis
  define s' where "s' = s1\<lparr>mem := set_free (mem s1) x 0\<rparr>"
  have xb: "x \<in> set bs" "x \<notin> set (remove1 x fl)"
    using x inv_subset [OF inv] inv_distinct [OF inv] by auto
  note C = clear_flag_inv [OF i1 xb s'_def]
  have "split_block s x sz = Some (Ret s' ())"
    using lt r1 by (simp add: split_block_def Let_def s'_def)
  then show ?thesis
    using C z1 g1 by (intro that [of s']) (simp_all add: s'_def)
qed

lemma split_block_carve:
  assumes inv: "heap_inv s bs fl" and x: "x \<in> set fl" and bs: "bs = pre @ x # post"
    and le: "sz \<le> get_size (mem s) x" and ge: "\<not> get_size (mem s) x - sz < 48"
    and nb: "nb = x + 32 + sz + 8"
  obtains s2 where "split_block s x sz = coalesce_next s2 nb"
    "heap_inv s2 (pre @ x # nb # post) (nb # remove1 x fl)"
    "get_size (mem s2) x = sz" "get_size (mem s2) nb = get_size (mem s) x - sz - 32 - 8"
    "unat sz + 40 + unat (get_size (mem s2) nb) = unat (get_size (mem s) x)"
    "\<And>b. b \<in> set (pre @ post) \<Longrightarrow> get_size (mem s2) b = get_size (mem s) b"
    "nb \<notin> set bs"
    "heap_top s2 = heap_top s" "heap_start s2 = heap_start s" "brk s2 = brk s"
    "brk_limit s2 = brk_limit s"
proof -
  from remove_from_free_list_inv [OF inv x] obtain s1 where
    r1: "remove_from_free_list s x = Some (Ret s1 ())" and i1: "heap_inv s1 bs (remove1 x fl)"
    and g1: "heap_top s1 = heap_top s" "heap_start s1 = heap_start s" "brk s1 = brk s"
      "brk_limit s1 = brk_limit s"
    and z1: "\<And>b. b \<in> set bs \<Longrightarrow> get_size (mem s1) b = get_size (mem s) b"
    by metis
  have xb: "x \<in> set bs" "x \<notin> set (remove1 x fl)"
    using x inv_subset [OF inv] inv_distinct [OF inv] by auto
  have zx: "get_size (mem s1) x = get_size (mem s) x" using z1 xb by simp
  define lv where "lv = get_size (mem s1) x - sz - 32 - 8"
  define m3 where "m3 = set_footer (set_free (set_size (mem s1) x sz) x 0) x"
  define c where "c = s1\<lparr>mem := set_free (write_block m3 nb lv 1 0 0) nb 0\<rparr>"
  have le1: "sz \<le> get_size (mem s1) x" and lo1: "48 \<le> get_size (mem s1) x - sz"
    using le ge by (simp_all add: zx not_less)
  note C = carve_inv [OF i1 bs xb(2) le1 lo1 nb lv_def m3_def c_def]
  have nbn: "nb \<in> set (pre @ x # nb # post)" "nb \<notin> set (remove1 x fl)"
    using C(6) inv_subset [OF i1] by auto
  note A = add_to_free_list_inv [OF C(1) nbn]
  note AF = add_to_free_list_fields [OF C(1) nbn]
  define s2 where "s2 = add_to_free_list (s1\<lparr>mem := write_block m3 nb lv 1 0 0\<rparr>) nb"
  have s2': "s2 = add_to_free_list c nb"
    using add_to_free_list_overwrite [of "s1\<lparr>mem := write_block m3 nb lv 1 0 0\<rparr>" nb 0]
    by (simp add: s2_def c_def)
  have sp: "split_block s x sz = coalesce_next s2 nb"
    using ge r1 C(2)
    by (simp add: split_block_def Let_def s2_def write_block_def m3_def [symmetric] nb lv_def zx)
  show ?thesis
  proof (rule that [OF sp])
    show "heap_inv s2 (pre @ x # nb # post) (nb # remove1 x fl)" unfolding s2' by (rule A)
    show "get_size (mem s2) x = sz" unfolding s2' using AF(1) [of x] C(3) by simp
    show z: "get_size (mem s2) nb = get_size (mem s) x - sz - 32 - 8"
      unfolding s2' using AF(1) [of nb] C(4) by (simp add: lv_def zx)
    show "unat sz + 40 + unat (get_size (mem s2) nb) = unat (get_size (mem s) x)"
      using C(7) z by (simp add: lv_def zx)
    show "get_size (mem s2) b = get_size (mem s) b" if "b \<in> set (pre @ post)" for b
    proof -
      from that have "b \<in> set (pre @ x # nb # post)" "b \<in> set bs" by (auto simp: bs)
      then show ?thesis unfolding s2' using AF(1) [of b] C(5) [OF that] z1 by simp
    qed
    show "nb \<notin> set bs" by (rule C(6))
  qed (simp_all add: s2' c_def g1)
qed

subsection \<open>Allocation\<close>

lemma heap_inv_break:
  assumes "heap_inv s bs fl"
  shows "brk s \<noteq> 0" "unat (brk s) \<le> unat (brk_limit s)" "unat (brk_limit s) + 32 < 2 ^ 64"
  using assms by (simp_all add: heap_inv_def break_ok_def)

lemma heap_inv_empty:
  assumes "heap_inv s bs fl" "heap_top s = 0"
  shows "bs = []" "fl = []" "free_list_head s = 0"
proof -
  from assms have t: "tiles (mem s) (unat (heap_start s)) bs 0" by (simp add: heap_inv_def)
  show b: "bs = []"
  proof (cases bs)
    case (Cons b bs')
    with tiles_bounds [OF t, of b] show ?thesis by simp
  qed simp
  with assms show f: "fl = []" by (simp add: heap_inv_def)
  with assms show "free_list_head s = 0" by (simp add: heap_inv_def)
qed


lemma heap_inv_top_bounds:
  assumes "heap_inv s bs fl" "heap_top s \<noteq> 0"
  shows "heap_top s = brk s" "heap_top s \<noteq> - 1" "unat (heap_top s) + 32 < 2 ^ 64"
proof -
  from assms show t: "heap_top s = brk s" by (simp add: heap_inv_def)
  from heap_inv_break [OF assms(1)] t show b: "unat (heap_top s) + 32 < 2 ^ 64" by simp
  show "heap_top s \<noteq> - 1"
  proof
    assume "heap_top s = - 1"
    then have "unat (heap_top s) = 2 ^ 64 - 1" by (simp add: unat_minus_one_64)
    with b show False by simp
  qed
qed



lemma ablocks_member:
  "(x, n, f) \<in> set (ablocks m bs) \<longleftrightarrow>
     x \<in> set bs \<and> n = unat (get_size m x) \<and> f = (get_free m x \<noteq> 0)"
  by (auto simp: ablocks_def)


lemma malloc_reuse:
  assumes inv: "heap_inv s bs fl" and top: "heap_top s \<noteq> 0" and sz: "sz \<noteq> 0"
    and fit: "List.find (\<lambda>b. aligned_size sz \<le> get_size (mem s) b) fl = Some x"
  obtains s' bs' fl' where "malloc s sz = Some (Ret s' (x + 32))" "heap_inv s' bs' fl'"
    "x \<in> set bs'" "x \<notin> set fl'" "aligned_size sz \<le> get_size (mem s') x"
    "heap_top s' = heap_top s" "heap_start s' = heap_start s" "brk s' = brk s"
    "brk_limit s' = brk_limit s"
    "get_size (mem s) x - aligned_size sz < 48 \<Longrightarrow>
       bs' = bs \<and> fl' = remove1 x fl \<and> (\<forall>b\<in>set bs. get_size (mem s') b = get_size (mem s) b)"
proof -
  let ?full = "aligned_size sz"
  from fit have x: "x \<in> set fl" and le: "?full \<le> get_size (mem s) x"
    by (auto simp: find_Some_iff)
  from x inv_subset [OF inv] have xb: "x \<in> set bs" by auto
  from heap_inv_nonzero [OF inv xb] have x0: "x \<noteq> 0" .
  note tb = heap_inv_top_bounds [OF inv top]
  have M: "malloc s sz = bind_outcome (split_block s x ?full) (\<lambda>s2 _. Some (Ret s2 (x + 32)))"
    using top sz tb(2) x0 by (simp add: malloc_def find_free_block_inv [OF inv] fit)
  from inv_distinct [OF inv] have dfl: "distinct fl" by simp
  show ?thesis
  proof (cases "get_size (mem s) x - ?full < 48")
    case True
    from split_block_whole [OF inv x True] obtain s' where
      s': "split_block s x ?full = Some (Ret s' ())" "heap_inv s' bs (remove1 x fl)"
        "\<And>b. b \<in> set bs \<Longrightarrow> get_size (mem s') b = get_size (mem s) b"
        "heap_top s' = heap_top s" "heap_start s' = heap_start s" "brk s' = brk s"
        "brk_limit s' = brk_limit s" by blast
    show ?thesis
    proof (rule that [of s' bs "remove1 x fl"])
      show "malloc s sz = Some (Ret s' (x + 32))" by (simp add: M s')
      show "x \<notin> set (remove1 x fl)" using dfl by simp
      show "?full \<le> get_size (mem s') x" using le s'(3) [OF xb] by simp
    qed (use s' xb in simp_all)
  next
    case False
    from split_list [OF xb] obtain pre post where bs: "bs = pre @ x # post" by blast
    define nb where "nb = x + 32 + ?full + 8"
    from split_block_carve [OF inv x bs le False nb_def] obtain s2 where
      s2: "split_block s x ?full = coalesce_next s2 nb"
        "heap_inv s2 (pre @ x # nb # post) (nb # remove1 x fl)"
        "get_size (mem s2) x = ?full" "nb \<notin> set bs"
        "heap_top s2 = heap_top s" "heap_start s2 = heap_start s" "brk s2 = brk s"
        "brk_limit s2 = brk_limit s" by blast
    have nbf: "nb \<in> set (nb # remove1 x fl)" by simp
    from coalesce_next_refines [OF s2(2) nbf] obtain s' bs' fl' where
      s': "coalesce_next s2 nb = Some (Ret s' ())" "heap_inv s' bs' fl'"
        "ablocks (mem s') bs' = merge_next (ablocks (mem s2) (pre @ x # nb # post)) nb"
        "heap_top s' = heap_top s2" "heap_start s' = heap_start s2" "brk s' = brk s2"
        "brk_limit s' = brk_limit s2" by blast
    have xnb: "x \<noteq> nb" using s2(4) xb by metis
    have xf2: "x \<notin> set (nb # remove1 x fl)" using xnb dfl by simp
    have xb2: "x \<in> set (pre @ x # nb # post)" by simp
    have "get_free (mem s2) x = 0" using flags_of_inv [OF s2(2) xb2] xf2 by simp
    then have "(x, unat ?full, False) \<in> set (ablocks (mem s2) (pre @ x # nb # post))"
      using s2(3) by (simp add: ablocks_member)
    from merge_next_keeps [OF this xnb]
    have k: "(x, unat ?full, False) \<in> set (ablocks (mem s') bs')" by (simp add: s'(3))
    note al = ablocks_allocated [OF s'(2) k]
    from k have "unat (get_size (mem s') x) = unat ?full" by (simp add: ablocks_member)
    then have sx: "get_size (mem s') x = ?full" by (simp add: word_unat_eq_iff)
    show ?thesis
    proof (rule that [of s' bs' fl'])
      show "malloc s sz = Some (Ret s' (x + 32))" by (simp add: M s2(1) s')
    qed (use s' s2 al sx False in simp_all)
  qed
qed


lemma malloc_null_grow:
  assumes inv: "heap_inv s bs fl" and top: "heap_top s \<noteq> 0" and sz: "sz \<noteq> 0"
    and None: "List.find (\<lambda>b. aligned_size sz \<le> get_size (mem s) b) fl = None"
  shows "malloc s sz = Some (Ret s 0) \<or> (\<exists>s'. malloc s sz = Some (Ret s' (brk s + 32)))"
    and "brk s + 32 \<noteq> 0"
proof -
  let ?full = "aligned_size sz"
  note tb = heap_inv_top_bounds [OF inv top]
  define incr where "incr = ?full + 32 + 8"
  have "unat (brk s + 32) = unat (brk s) + 32"
    using tb by (simp add: unat_add_lem [THEN iffD1])
  then show p0: "brk s + 32 \<noteq> 0" by (metis add_is_0 unat_eq_0 zero_neq_numeral)
  have b1: "brk s \<noteq> - 1" using tb by simp
  note M = malloc_def find_free_block_inv [OF inv] None incr_def [symmetric] Let_def
  consider "incr = 0" | "incr \<noteq> 0" "unat (brk s) + unat incr \<le> unat (brk_limit s)"
    | "incr \<noteq> 0" "\<not> unat (brk s) + unat incr \<le> unat (brk_limit s)" by blast
  then show "malloc s sz = Some (Ret s 0) \<or> (\<exists>s'. malloc s sz = Some (Ret s' (brk s + 32)))"
  proof cases
    case 1
    then show ?thesis using b1 top sz tb(2) by (simp add: M sbrk_def)
  next
    case 2
    then show ?thesis using b1 top sz tb(2) by (simp add: M sbrk_def)
  next
    case 3
    then show ?thesis using b1 top sz tb(2) by (simp add: M sbrk_def)
  qed
qed


lemma malloc_null:
  assumes inv: "heap_inv s bs fl" and top: "heap_top s \<noteq> 0"
    and r: "malloc s sz = Some (Ret s' 0)"
  shows "s' = s"
proof (cases "sz = 0")
  case True
  have e: "malloc s sz = Some (Ret s 0)" using True by (simp add: malloc_def)
  from Ret_unique [OF r e] show ?thesis by blast
next
  case sz: False
  let ?full = "aligned_size sz"
  show ?thesis
  proof (cases "List.find (\<lambda>b. ?full \<le> get_size (mem s) b) fl")
    case (Some x)
    show ?thesis
    proof (rule malloc_reuse [OF inv top sz Some])
      fix s'' bs' fl'
      assume m: "malloc s sz = Some (Ret s'' (x + 32))" "heap_inv s'' bs' fl'" "x \<in> set bs'"
      from Ret_unique [OF r m(1)] have "x + 32 = 0" by simp
      with payload_ptr(1) [OF m(2,3)] show ?thesis by blast
    qed
  next
    case None
    note G = malloc_null_grow [OF inv top sz None]
    from G(1) show ?thesis
    proof
      assume e: "malloc s sz = Some (Ret s 0)"
      from Ret_unique [OF r e] show ?thesis by blast
    next
      assume "\<exists>s'. malloc s sz = Some (Ret s' (brk s + 32))"
      then obtain t where e: "malloc s sz = Some (Ret t (brk s + 32))" by blast
      from Ret_unique [OF r e] have "brk s + 32 = 0" by simp
      with G(2) show ?thesis by blast
    qed
  qed
qed


lemma aligned_size_0 [simp]: "aligned_size 0 = 0"
  by (simp add: aligned_size_def)

lemma realloc_fallback:
  assumes "ptr \<noteq> 0" "get_size (mem s) (ptr - 32) < aligned_size sz" "\<not> grows_in_place s ptr sz"
  shows "realloc s ptr sz =
           bind_outcome (malloc s sz) (\<lambda>s1 new_ptr.
             if new_ptr = 0 then Some (Ret s1 0)
             else bind_outcome
                    (free (s1\<lparr>mem := memcpy (mem s1) new_ptr ptr (get_size (mem s) (ptr - 32))\<rparr>) ptr)
                    (\<lambda>s2 _. Some (Ret s2 new_ptr)))"
proof -
  have "sz \<noteq> 0" using assms(2) by (auto simp: word_less_nat_alt)
  moreover have "\<not> aligned_size sz \<le> get_size (mem s) (ptr - 32)" using assms(2) by simp
  ultimately show ?thesis
    unfolding realloc_def Let_def
    using assms(1) assms(3) [unfolded grows_in_place_def Let_def]
    by (simp only: if_False)
qed

lemma malloc_exhausted:
  assumes inv: "heap_inv s bs fl" and top: "heap_top s \<noteq> 0" and sz: "sz \<noteq> 0"
    and nofit: "List.find (\<lambda>b. aligned_size sz \<le> get_size (mem s) b) fl = None"
    and ov: "aligned_size sz + 32 + 8 \<noteq> 0"
    and full: "\<not> unat (brk s) + unat (aligned_size sz + 32 + 8) \<le> unat (brk_limit s)"
  shows "malloc s sz = Some (Ret s 0)"
proof -
  note tb = heap_inv_top_bounds [OF inv top]
  have b1: "brk s \<noteq> - 1" using tb by simp
  show ?thesis using top sz tb(2) b1 ov full
    by (simp add: malloc_def find_free_block_inv [OF inv] nofit sbrk_def Let_def)
qed

lemma realloc_in_place:
  assumes "ptr \<noteq> 0" "get_size (mem s) (ptr - 32) < aligned_size sz" "grows_in_place s ptr sz"
  shows "realloc s ptr sz =
           bind_outcome
             (remove_from_free_list s (ptr - 32 + 32 + get_size (mem s) (ptr - 32) + 8))
             (\<lambda>s1 _. Some (Ret (s1\<lparr>mem := set_footer (set_size (mem s1) (ptr - 32)
                 (get_size (mem s) (ptr - 32) + 32 +
                  get_size (mem s) (ptr - 32 + 32 + get_size (mem s) (ptr - 32) + 8) + 8))
                 (ptr - 32)\<rparr>) ptr))"
proof -
  have "sz \<noteq> 0" using assms(2) by (auto simp: word_less_nat_alt)
  moreover have "\<not> aligned_size sz \<le> get_size (mem s) (ptr - 32)" using assms(2) by simp
  ultimately show ?thesis
    unfolding realloc_def Let_def
    using assms(1) assms(3) [unfolded grows_in_place_def Let_def]
    by (simp only: if_False if_True simp_thms)
qed


subsection \<open>Sizes after a release\<close>

lemma fst_mark_free [simp]: "map fst (mark_free l x) = map fst l"
  by (induction l) (auto simp: mark_free_def)








subsection \<open>What an allocation returns\<close>




section \<open>Concrete heaps\<close>

lemma heap_inv_three_allocated: "heap_inv three_allocated [4096, 4152, 4208] []"
  by (simp add: heap_inv_def break_ok_def three_allocated_def write_block_fields write_block_load64
        get_footer_size_def footer_of_def hsep_def fsep_def apart_def)


lemma ab1: "ablocks (mem three_allocated) [4096, 4152, 4208] = [(4096, 16, False), (4152, 16, False), (4208, 16, False)]"
  by (simp add: three_allocated_def write_block_fields hsep_def fsep_def apart_def)

lemma state_after_Ret: "r = Some (Ret s' v) \<Longrightarrow> state_after d r = s' \<and> value_of r = Some v"
  by simp








lemma heap_inv_used_then_free: "heap_inv used_then_free [4096, 4152] [4152]"
  by (simp add: heap_inv_def break_ok_def used_then_free_def write_block_fields write_block_load64
      get_footer_size_def footer_of_def hsep_def fsep_def apart_def)

lemma sizes_used_then_free:
  "get_size (mem used_then_free) 4096 = 16" "get_size (mem used_then_free) 4152 = 64"
  by (simp_all add: used_then_free_def write_block_fields hsep_def fsep_def apart_def)


lemma malloc_fresh_8: "malloc fresh_state 8 = Some (Ret one_used_8 4128)"
  by (simp add: malloc_def fresh_state_def one_used_8_def sbrk_def find_free_block_def
      aligned_size_def write_block_def Let_def)

lemma heap_inv_one_used_8: "heap_inv one_used_8 [4096] []"
  by (simp add: heap_inv_def break_ok_def one_used_8_def write_block_fields write_block_load64
      get_footer_size_def footer_of_def hsep_def fsep_def apart_def)

lemma one_used_8_fields:
  "get_size (mem one_used_8) 4096 = 8" "get_footer_size (mem one_used_8) 4096 = 8"
  "heap_start one_used_8 = 4096" "heap_top one_used_8 = 4144"
  by (simp_all add: one_used_8_def write_block_fields write_block_load64
      get_footer_size_def footer_of_def hsep_def fsep_def apart_def)

lemma malloc_huge: "malloc one_used_8 18446744073709551576 = Some (Ret wrapped 4176)"
  by (simp add: malloc_def wrapped_def one_used_8_def sbrk_def find_free_block_def
      aligned_size_def write_block_def Let_def)

lemma wrapped_fields:
  "get_size (mem wrapped) 4096 = 8" "get_footer_size (mem wrapped) 4096 = 18446744073709551576"
  "heap_start wrapped = 4096" "heap_top wrapped = 4144"
  by (simp_all add: wrapped_def one_used_8_def write_block_fields write_block_load64
      get_footer_size_def footer_of_def hsep_def fsep_def apart_def)




lemma aligned_size_16 [simp]: "aligned_size 16 = 16"
  by (simp add: aligned_size_def)




lemma heap_inv_three_free: "heap_inv three_free [4096, 4152, 4208] [4096, 4152, 4208]"
  by (simp add: heap_inv_def break_ok_def three_free_def write_block_fields write_block_load64
        get_footer_size_def footer_of_def hsep_def fsep_def apart_def)

lemma skipped_fields:
  "free_list_head skipped = 4096"
  "get_next (mem skipped) 4096 = 4208" "get_next (mem skipped) 4208 = 0"
  "get_free (mem skipped) 4152 = 1" "get_prev (mem skipped) 4152 = 4096"
  "get_next (mem skipped) 4152 = 4208" "get_prev (mem skipped) 4208 = 4152"
  by (simp_all add: skipped_def three_free_def write_block_fields fld_simps
      hsep_def fsep_def apart_def)

lemma skipped_after_flag:
  "get_prev (set_free (mem skipped) 4152 0) 4152 = 4096"
  "get_next (set_free (mem skipped) 4152 0) 4096 = 4208"
  by (simp_all add: skipped_def three_free_def write_block_fields fld_simps
      hsep_def fsep_def apart_def)

section \<open>zero_allocate\<close>

lemma overflow_detected:
  fixes num sz :: size_t
  assumes "num \<noteq> 0" "2 ^ 64 \<le> unat num * unat sz"
  shows "(num * sz) div num \<noteq> sz"
proof
  assume e: "(num * sz) div num = sz"
  have "unat ((num * sz) div num) = unat (num * sz) div unat num"
    by (simp add: unat_div)
  with e have "unat sz = unat (num * sz) div unat num" by simp
  then have "unat sz * unat num \<le> unat (num * sz)" by simp
  moreover have "unat (num * sz) < 2 ^ 64" using unsigned_less [of "num * sz"] by simp
  ultimately show False using assms(2) by (simp add: mult.commute)
qed

text \<open>
  C5.  \<^verbatim>\<open>calloc\<close> returns null when \<open>num\<close> is 0, when \<open>sz\<close> is 0, and when the product
  of the two does not fit the 64 bits of \<^verbatim>\<open>size_t\<close> (which the division of the wrapped
  product by \<open>num\<close> detects); the state it returns is the state it was given.
\<close>

theorem calloc_rejects:
  assumes "num = 0 \<or> sz = 0 \<or> 2 ^ 64 \<le> unat num * unat sz"
  shows "calloc s num sz = Some (Ret s 0)"
  using assms overflow_detected [of num sz] by (auto simp: calloc_def Let_def)

theorem calloc_rejects_witness:
  "2 ^ 64 \<le> unat (2 ^ 63 :: size_t) * unat (2 :: size_t) \<and>
   calloc fresh_state (2 ^ 63) 2 = Some (Ret fresh_state 0)"
proof -
  have h: "2 ^ 64 \<le> unat (2 ^ 63 :: size_t) * unat (2 :: size_t)" by simp
  then have "(2 ^ 63 :: size_t) = 0 \<or> (2 :: size_t) = 0 \<or> 2 ^ 64 \<le> unat (2 ^ 63 :: size_t) * unat (2 :: size_t)"
    by blast
  from calloc_rejects [OF this] h show ?thesis by blast
qed





section \<open>Removal from the free list\<close>

text \<open>
  C10.  When the \<^verbatim>\<open>next\<close> links from the head of the free list end in null and do
  not pass through \<open>block\<close>, \<^verbatim>\<open>remove_from_free_list\<close> returns without an abort and
  leaves the whole state as it was: the head, every link and every flag.
\<close>

theorem remove_absent_noop:
  assumes "chain (mem s) (free_list_head s) xs 0" "block \<notin> set xs"
  shows "remove_from_free_list s block = Some (Ret s ())"
  using assms by (simp add: remove_from_free_list_def remove_loop_absent)

theorem remove_absent_noop_witness:
  "chain (mem two_blocks) (free_list_head two_blocks) [4096] 0 \<and> (4152 :: addr) \<notin> set [4096] \<and>
   remove_from_free_list two_blocks 4152 = Some (Ret two_blocks ())"
proof -
  have h1: "chain (mem two_blocks) (free_list_head two_blocks) [4096] 0" by code_simp
  have h2: "(4152 :: addr) \<notin> set [4096]" by simp
  from remove_absent_noop [OF h1 h2] h1 h2 show ?thesis by blast
qed

text \<open>
  C6, as the code has it.  The check on the neighbours of \<open>block\<close> is made where the
  walk from the head of the free list, along the \<^verbatim>\<open>next\<close> links, arrives at \<open>block\<close>.
  When the walk reaches \<open>block\<close> and, at the check, a neighbour of \<open>block\<close> does not
  point back to it, \<^verbatim>\<open>remove_from_free_list\<close> aborts with a line on the standard error
  stream.  The memory at the abort differs from the memory before the call by the cleared
  flag of \<open>block\<close> only: no link of a neighbour has been written.
\<close>

theorem remove_corrupt_aborts:
  assumes "chain (mem s) (free_list_head s) xs block" "block \<notin> set xs" "block \<noteq> 0"
    and "links_corrupt (set_free (mem s) block 0) block"
  shows "\<exists>msg s'. remove_from_free_list s block = Some (Abort msg s') \<and>
           mem s' = set_free (mem s) block 0 \<and>
           msg \<in> {''Corrupted heap detected: Next block's prev pointer does not point back to current block.'',
                  ''Corrupted heap detected: Prev block's next pointer does not point back to current block.''}"
proof -
  have "remove_from_free_list s block = Some (unlink_block s block)"
    using assms(1-3) by (simp add: remove_from_free_list_def remove_loop_found)
  then show ?thesis using assms(4)
    by (auto simp: unlink_block_def links_corrupt_def Let_def)
qed

theorem remove_corrupt_aborts_witness:
  "chain (mem overrun_heap) (free_list_head overrun_heap) [] 4096 \<and> (4096 :: addr) \<notin> set [] \<and>
   (4096 :: addr) \<noteq> 0 \<and> links_corrupt (set_free (mem overrun_heap) 4096 0) 4096 \<and>
   (\<exists>msg s'. remove_from_free_list overrun_heap 4096 = Some (Abort msg s') \<and>
           mem s' = set_free (mem overrun_heap) 4096 0 \<and>
           msg \<in> {''Corrupted heap detected: Next block's prev pointer does not point back to current block.'',
                  ''Corrupted heap detected: Prev block's next pointer does not point back to current block.''})"
proof -
  have h1: "chain (mem overrun_heap) (free_list_head overrun_heap) [] 4096" by code_simp
  have h2: "(4096 :: addr) \<notin> set []" "(4096 :: addr) \<noteq> 0" by simp_all
  have h3: "links_corrupt (set_free (mem overrun_heap) 4096 0) 4096" by code_simp
  from remove_corrupt_aborts [OF h1 h2 h3] h1 h2 h3 show ?thesis by blast
qed

text \<open>
  C6, as the claim states it, fails for a block that the walk does not reach.  In
  \<open>skipped\<close> the block at 4152 has its flag set and its \<^verbatim>\<open>prev\<close> link names the block at
  4096, whose \<^verbatim>\<open>next\<close> link names the block at 4208 instead: the links of 4152 are
  corrupt in the claim's sense, before the call and with the flag cleared.  The walk goes
  from 4096 to 4208 and ends; \<^verbatim>\<open>remove_from_free_list\<close> returns without an abort and
  leaves the state as it was.
\<close>

theorem remove_skips_unreached_block:
  "get_free (mem skipped) 4152 = 1 \<and>
   get_prev (mem skipped) 4152 = 4096 \<and> get_next (mem skipped) 4096 = 4208 \<and>
   links_corrupt (mem skipped) 4152 \<and>
   links_corrupt (set_free (mem skipped) 4152 0) 4152 \<and>
   remove_from_free_list skipped 4152 = Some (Ret skipped ())"
proof -
  have c: "chain (mem skipped) (free_list_head skipped) [4096, 4208] 0"
    by (simp add: skipped_fields)
  have "remove_from_free_list skipped 4152 = Some (Ret skipped ())"
    by (simp add: remove_from_free_list_def remove_loop_absent [OF c])
  moreover have "links_corrupt (mem skipped) 4152"
    by (simp add: links_corrupt_def skipped_fields)
  moreover have "links_corrupt (set_free (mem skipped) 4152 0) 4152"
    by (simp add: links_corrupt_def skipped_after_flag)
  ultimately show ?thesis by (simp add: skipped_fields)
qed


section \<open>Release and coalescing\<close>




section \<open>Splitting a free block\<close>




subsection \<open>A resize that cannot be served\<close>

text \<open>
  Claim C4.  Let \<open>ptr\<close> be the payload of an allocated block of a well-formed heap, and
  let the aligned new size exceed the block's payload size.  If the block cannot grow in
  place and the allocation of a new block fails (\<^verbatim>\<open>malloc\<close> returns null), then
  \<^verbatim>\<open>realloc\<close> returns null and the whole state is the state before the call: the memory
  (so the block's header, footer and payload), the free list and the heap bounds.
\<close>

theorem realloc_failure_keeps_block:
  assumes inv: "heap_inv s bs fl"
    and blk: "ptr - 32 \<in> set bs" "ptr - 32 \<notin> set fl" "ptr \<noteq> 0"
    and bigger: "get_size (mem s) (ptr - 32) < aligned_size sz"
    and stay: "\<not> grows_in_place s ptr sz"
    and fail: "malloc s sz = Some (Ret s' 0)"
  shows "realloc s ptr sz = Some (Ret s 0)"
proof -
  have "bs \<noteq> []" using blk(1) by auto
  with heap_inv_empty(1) [OF inv] have top: "heap_top s \<noteq> 0" by blast
  from malloc_null [OF inv top fail] have "s' = s" .
  with fail have "malloc s sz = Some (Ret s 0)" by (simp only:)
  then show ?thesis by (simp add: realloc_fallback [OF blk(3) bigger stay])
qed

theorem realloc_failure_keeps_block_witness:
  "heap_inv three_allocated [4096, 4152, 4208] [] \<and>
   (4128 :: addr) - 32 \<in> set [4096, 4152, 4208] \<and> (4128 :: addr) - 32 \<notin> set [] \<and>
   (4128 :: addr) \<noteq> 0 \<and>
   get_size (mem three_allocated) (4128 - 32) < aligned_size 4000 \<and>
   \<not> grows_in_place three_allocated 4128 4000 \<and>
   malloc three_allocated 4000 = Some (Ret three_allocated 0) \<and>
   realloc three_allocated 4128 4000 = Some (Ret three_allocated 0)"
proof -
  note inv = heap_inv_three_allocated
  have top: "heap_top three_allocated \<noteq> 0" "brk three_allocated = 4264"
    "brk_limit three_allocated = 8192" by (simp_all add: three_allocated_def)
  have a: "aligned_size 4000 = 4000" by (simp add: aligned_size_def)
  have sizes: "get_size (mem three_allocated) 4096 = 16" "get_free (mem three_allocated) 4152 = 0"
    by (simp_all add: three_allocated_def write_block_fields hsep_def fsep_def apart_def)
  have m: "malloc three_allocated 4000 = Some (Ret three_allocated 0)"
    by (rule malloc_exhausted [OF inv top(1)]) (simp_all add: a top)
  have b: "get_size (mem three_allocated) (4128 - 32) < aligned_size 4000"
    by (simp add: a sizes)
  have g: "\<not> grows_in_place three_allocated 4128 4000"
    by (simp add: grows_in_place_def sizes Let_def)
  from realloc_failure_keeps_block [OF inv _ _ _ b g m] m b g inv
  show ?thesis by simp
qed


subsection \<open>Growing a block in place\<close>

text \<open>
  Claim C9.  When \<^verbatim>\<open>realloc\<close> is asked for more than an allocated block holds and the
  block right behind it is free and large enough for the two together to hold the aligned
  request, the block stays where it is and its payload size becomes its old size plus the
  header (32), the neighbour's size and the footer (8), whether or not that is more than
  the request.  The neighbour leaves the block list and the free list, and nothing else
  enters either: no remainder is split off.
\<close>

theorem realloc_absorbs_neighbour:
  assumes inv: "heap_inv s bs fl"
    and bs: "bs = pre @ x # nb # post"
    and xa: "x \<notin> set fl" and nf: "nb \<in> set fl"
    and bigger: "get_size (mem s) x < aligned_size sz"
    and fits: "aligned_size sz \<le> get_size (mem s) x + 32 + get_size (mem s) nb + 8"
  shows "\<exists>s'. realloc s (x + 32) sz = Some (Ret s' (x + 32)) \<and>
           heap_inv s' (pre @ x # post) (remove1 nb fl) \<and>
           x \<notin> set (remove1 nb fl) \<and>
           get_size (mem s') x = get_size (mem s) x + 32 + get_size (mem s) nb + 8 \<and>
           unat (get_size (mem s') x) =
             unat (get_size (mem s) x) + 32 + 8 + unat (get_size (mem s) nb) \<and>
           heap_top s' = heap_top s \<and> brk s' = brk s"
proof -
  let ?m = "mem s" and ?p = "x + 32"
  have xb: "x \<in> set bs" and nbb: "nb \<in> set bs" by (simp_all add: bs)
  note pp = payload_ptr [OF inv xb]
  note nx = next_block_addr [OF inv bs]
  have e: "?p - 32 + 32 + get_size ?m (?p - 32) + 8 = nb"
    unfolding pp(2) by (rule nx(1))
  from inv have t: "tiles ?m (unat (heap_start s)) bs (unat (heap_top s))"
    by (simp add: heap_inv_def)
  from tiles_bounds [OF t nbb] have "unat nb < unat (heap_top s)" by simp
  then have lt: "nb < heap_top s" by (simp add: word_less_nat_alt)
  have fr: "get_free ?m nb \<noteq> 0" using flags_of_inv [OF inv nbb] nf by simp
  have g: "grows_in_place s ?p sz"
    unfolding grows_in_place_def Let_def pp(2) nx(1) using lt fr fits by blast
  have b': "get_size ?m (?p - 32) < aligned_size sz" unfolding pp(2) by (rule bigger)
  note R = realloc_in_place [OF pp(1) b' g, unfolded pp(2) nx(1)]
  from remove_from_free_list_inv [OF inv nf] obtain s1 where
    s1: "remove_from_free_list s nb = Some (Ret s1 ())" "heap_inv s1 bs (remove1 nb fl)"
      "heap_top s1 = heap_top s" "brk s1 = brk s"
      "\<And>b. b \<in> set bs \<Longrightarrow> get_size (mem s1) b = get_size ?m b" by metis
  from inv_distinct [OF inv] have nr: "nb \<notin> set (remove1 nb fl)" by simp
  define S where "S = get_size (mem s1) x + 8 + 32 + get_size (mem s1) nb"
  define s' where "s' = s1\<lparr>mem := set_footer (set_size (mem s1) x S) x\<rparr>"
  note M = merge_inv [OF s1(2) bs nr S_def s'_def]
  have Sv: "S = get_size ?m x + 32 + get_size ?m nb + 8"
    by (simp add: S_def s1(5) [OF xb] s1(5) [OF nbb])
  have r: "realloc s ?p sz = Some (Ret s' ?p)"
    unfolding R s1(1) by (simp add: s'_def Sv)
  have xr: "x \<notin> set (remove1 nb fl)" using xa by (metis notin_set_remove1)
  have u: "unat (get_size (mem s') x) = unat (get_size ?m x) + 32 + 8 + unat (get_size ?m nb)"
    using M(2,3) by (simp add: s1(5) [OF xb] s1(5) [OF nbb])
  have "get_size (mem s') x = get_size ?m x + 32 + get_size ?m nb + 8" using M(2) Sv by simp
  with r M(1) xr u show ?thesis by (intro exI [of _ s']) (simp add: s'_def s1)
qed

theorem realloc_absorbs_neighbour_witness:
  "heap_inv used_then_free [4096, 4152] [4152] \<and>
   [4096, 4152 :: addr] = [] @ 4096 # 4152 # [] \<and>
   (4096 :: addr) \<notin> set [4152] \<and> (4152 :: addr) \<in> set [4152] \<and>
   get_size (mem used_then_free) 4096 < aligned_size 24 \<and>
   aligned_size 24 < get_size (mem used_then_free) 4096 + 32 + get_size (mem used_then_free) 4152 + 8 \<and>
   (\<exists>s'. realloc used_then_free (4096 + 32) 24 = Some (Ret s' (4096 + 32)) \<and>
      heap_inv s' ([] @ 4096 # []) (remove1 4152 [4152]) \<and>
      get_size (mem s') 4096 = 120 \<and> unat (get_size (mem s') 4096) = 120)"
proof -
  have a: "aligned_size 24 = 24" by (simp add: aligned_size_def)
  have h: "[4096, 4152 :: addr] = [] @ 4096 # 4152 # []" "(4096 :: addr) \<notin> set [4152]"
    "(4152 :: addr) \<in> set [4152]" by simp_all
  have b: "get_size (mem used_then_free) 4096 < aligned_size 24"
    and f: "aligned_size 24 < get_size (mem used_then_free) 4096 + 32 + get_size (mem used_then_free) 4152 + 8"
    by (simp_all add: a sizes_used_then_free)
  from f have f': "aligned_size 24 \<le> get_size (mem used_then_free) 4096 + 32 + get_size (mem used_then_free) 4152 + 8"
    by (rule order.strict_implies_order)
  from realloc_absorbs_neighbour [OF heap_inv_used_then_free h b f']
  obtain s' where "realloc used_then_free (4096 + 32) 24 = Some (Ret s' (4096 + 32))"
    "heap_inv s' ([] @ 4096 # []) (remove1 4152 [4152])"
    "get_size (mem s') 4096 = get_size (mem used_then_free) 4096 + 32 + get_size (mem used_then_free) 4152 + 8"
    "unat (get_size (mem s') 4096) =
       unat (get_size (mem used_then_free) 4096) + 32 + 8 + unat (get_size (mem used_then_free) 4152)"
    by blast
  then have "\<exists>s'. realloc used_then_free (4096 + 32) 24 = Some (Ret s' (4096 + 32)) \<and>
      heap_inv s' ([] @ 4096 # []) (remove1 4152 [4152]) \<and>
      get_size (mem s') 4096 = 120 \<and> unat (get_size (mem s') 4096) = 120"
    by (intro exI [of _ s']) (simp add: sizes_used_then_free)
  with heap_inv_used_then_free h b f show ?thesis by blast
qed


subsection \<open>Header and footer sizes\<close>

text \<open>
  Claim C8 says that after every public operation the size in the header of every block
  of the heap region equals the size in its footer.  \<^verbatim>\<open>malloc\<close> adds the header and footer
  sizes to the aligned request without a check for wrap-around.  In a fresh process,
  \<^verbatim>\<open>malloc(8)\<close> returns 4128 and leaves a well-formed heap of one block at 4096.  The call
  \<^verbatim>\<open>malloc(18446744073709551576)\<close> (that is \<open>2^64 - 40\<close>) that follows asks the break for
  \<open>2^64 - 40 + 40 = 0\<close> more bytes, which succeeds, and returns the pointer 4176, above the
  break.  The heap region is still the one block at 4096; its header still says 8, and its
  footer, overwritten by the footer of the new record, says \<open>2^64 - 40\<close>.
\<close>

theorem malloc_wraps_onto_footer:
  "malloc fresh_state 8 = Some (Ret one_used_8 4128) \<and>
   heap_start one_used_8 = 4096 \<and> heap_top one_used_8 = 4144 \<and>
   get_size (mem one_used_8) 4096 = 8 \<and>
   get_footer_size (mem one_used_8) 4096 = 8 \<and>
   malloc one_used_8 18446744073709551576 = Some (Ret wrapped 4176) \<and>
   heap_start wrapped = 4096 \<and> heap_top wrapped = 4144 \<and>
   get_size (mem wrapped) 4096 = 8 \<and>
   get_footer_size (mem wrapped) 4096 = 18446744073709551576"
  using malloc_fresh_8 one_used_8_fields malloc_huge wrapped_fields by blast


subsection \<open>Reuse of a released block\<close>



end
